theory Spec2Isabelle
  imports Complex_Main
begin

section \<open>Data model\<close>

text \<open>
  The script in \<^verbatim>\<open>main.py\<close> talks to two outside parties: the Mattermost driver and a
  PostgreSQL connection. Both are modelled as records of answers: what a call returns, or
  the exception it raises, as a function of the arguments of the call. Every call the
  script issues is written to a trace of events, in the order of the source, so that the
  number and the order of calls, inserts, commits and roll-backs can be read off.

  A dictionary decoded from the API (a team, a channel, a member, a user, a status) is an
  association list from keys to text values; \<open>d[k]\<close> raises \<open>KeyError\<close> on a missing key
  and \<open>d.get(k)\<close> gives \<open>None\<close>.
\<close>

type_synonym json = "(string \<times> string) list"

type_synonym datetime = int

datatype pg_error = PgErr (sqlstate: "string option") (message: string)

datatype exn = ApiError string | KeyError string | PgError pg_error | ZeroDivisionError

text \<open>The tuple appended to \<open>records_to_process_later\<close>, and the parameters of the INSERT.\<close>

type_synonym collected = "datetime \<times> string \<times> string \<times> string \<times> string \<times> string"

type_synonym row =
  "datetime \<times> string \<times> string \<times> string \<times> string \<times> string \<times> string \<times> string"

datatype stmt =
    CreateExtension
  | CreateTable
  | CreateHypertable
  | SetCompression
  | AddCompressionPolicy
  | Insert row

datatype event =
    Login
  | GetUserTeams
  | GetChannels string
  | GetMembers string nat nat
  | Sleep
  | GetStatuses "string list"
  | GetUsers "string list"
  | Connect
  | Execute stmt
  | Rollback
  | Commit
  | ConnExit
  | Logout

text \<open>
  The driver: \<open>get_channel_members d channel_id page per_page\<close> is the answer of
  \<open>driver.channels.get_channel_members(channel_id, params={'page': page, 'per_page': per_page})\<close>.
\<close>

record driver =
  login :: "exn option"
  get_user_teams :: "exn + json list"
  get_channels_for_user :: "string \<Rightarrow> exn + json list"
  get_channel_members :: "string \<Rightarrow> nat \<Rightarrow> nat \<Rightarrow> exn + json list"
  get_user_statuses_by_id :: "string list \<Rightarrow> exn + json list"
  get_users_by_ids :: "string list \<Rightarrow> exn + json list"
  logout :: "exn option"

text \<open>
  The connection: \<open>None\<close> is success, \<open>Some e\<close> the \<open>psycopg.Error\<close> raised by
  \<open>get_pg_conn()\<close>, \<open>cur.execute\<close>, \<open>conn.rollback()\<close> and \<open>conn.commit()\<close>.
\<close>

record conn =
  connect :: "pg_error option"
  execute :: "stmt \<Rightarrow> pg_error option"
  rollback :: "pg_error option"
  commit :: "pg_error option"

text \<open>
  A computation returns the events it issued and either the exception that ended it
  (\<open>Inl\<close>) or its value (\<open>Inr\<close>).
\<close>

type_synonym 'a io = "event list \<times> (exn + 'a)"

definition emit :: "event list \<Rightarrow> 'a io \<Rightarrow> 'a io" where
  "emit evs m = (evs @ fst m, snd m)"

definition then_io :: "'a io \<Rightarrow> ('a \<Rightarrow> 'b io) \<Rightarrow> 'b io" where
  "then_io m k =
     (case snd m of
        Inl e \<Rightarrow> (fst m, Inl e)
      | Inr x \<Rightarrow> emit (fst m) (k x))"

text \<open>
  The same for a computation that may run for ever (\<open>None\<close>): the second runs when the
  first has ended without an exception, after its events.
\<close>

definition obind :: "'a io option \<Rightarrow> ('a \<Rightarrow> 'b io option) \<Rightarrow> 'b io option" where
  "obind m k =
     (case m of
        None \<Rightarrow> None
      | Some (evs, Inl e) \<Rightarrow> Some (evs, Inl e)
      | Some (evs, Inr x) \<Rightarrow> map_option (emit evs) (k x))"

definition dict_get :: "json \<Rightarrow> string \<Rightarrow> string option" where
  "dict_get d k = map_of d k"

definition dict_item :: "json \<Rightarrow> string \<Rightarrow> exn + string" where
  "dict_item d k = (case dict_get d k of None \<Rightarrow> Inl (KeyError k) | Some v \<Rightarrow> Inr v)"

section \<open>get_all_channel_members\<close>

text \<open>
  The \<open>while True\<close> loop of \<open>get_all_channel_members\<close>, with \<open>page\<close> and \<open>all_members\<close>
  as its state; \<open>fetch\<close> is \<open>driver.channels.get_channel_members\<close>. The loop ends at the
  first empty page or at the first exception; a driver that never answers with an empty
  page keeps it running for ever, which is the value \<open>None\<close>.
\<close>

definition per_page :: nat where
  "per_page = 200"

partial_function (option) members_loop ::
  "(string \<Rightarrow> nat \<Rightarrow> nat \<Rightarrow> exn + json list) \<Rightarrow> string \<Rightarrow> nat \<Rightarrow> json list
     \<Rightarrow> (json list) io option" where
  "members_loop fetch channel_id page all_members =
     (case fetch channel_id page per_page of
        Inl e \<Rightarrow> Some ([GetMembers channel_id page per_page], Inl e)
      | Inr members \<Rightarrow>
          if members = [] then Some ([GetMembers channel_id page per_page], Inr all_members)
          else Option.bind (members_loop fetch channel_id (page + 1) (all_members @ members))
                 (\<lambda>r. Some (emit [GetMembers channel_id page per_page, Sleep] r)))"

declare members_loop.simps [code]

definition get_all_channel_members :: "driver \<Rightarrow> string \<Rightarrow> (json list) io option" where
  "get_all_channel_members drv channel_id =
     members_loop (get_channel_members drv) channel_id 0 []"

section \<open>Collecting the snapshot\<close>

text \<open>
  \<open>channel.get('display_name') or channel.get('name', 'unknown')\<close>: Python's \<open>or\<close>
  gives its second operand when the first is \<open>None\<close> or the empty string.
\<close>

definition py_or :: "string option \<Rightarrow> string \<Rightarrow> string" where
  "py_or a b = (case a of None \<Rightarrow> b | Some s \<Rightarrow> if s = [] then b else s)"

definition dict_get_default :: "json \<Rightarrow> string \<Rightarrow> string \<Rightarrow> string" where
  "dict_get_default d k dflt = (case dict_get d k of None \<Rightarrow> dflt | Some v \<Rightarrow> v)"

definition channel_name_of :: "json \<Rightarrow> string" where
  "channel_name_of channel =
     py_or (dict_get channel ''display_name'') (dict_get_default channel ''name'' ''unknown'')"

text \<open>\<open>member['user_id'] for member in members\<close>, in the order of the list.\<close>

fun member_user_ids :: "json list \<Rightarrow> exn + string list" where
  "member_user_ids [] = Inr []"
| "member_user_ids (member # members) =
     (case dict_item member ''user_id'' of
        Inl e \<Rightarrow> Inl e
      | Inr u \<Rightarrow>
          (case member_user_ids members of
             Inl e \<Rightarrow> Inl e
           | Inr us \<Rightarrow> Inr (u # us)))"

text \<open>
  A Python set is the list of the values put into it, in the order they were put; the
  order in which the set is iterated is the parameter \<open>iter\<close>, a function of that list.
  Python promises of it what \<open>set_iter_ok\<close> says: each element once.

  The state of the two loops of \<open>main\<close> is \<open>all_user_ids_globally\<close> and
  \<open>records_to_process_later\<close>.
\<close>

definition set_iter_ok :: "(string list \<Rightarrow> string list) \<Rightarrow> bool" where
  "set_iter_ok iter = (\<forall>xs. set (iter xs) = set xs \<and> distinct (iter xs))"

type_synonym cstate = "string list \<times> collected list"

definition add_channel ::
  "datetime \<Rightarrow> string \<Rightarrow> string \<Rightarrow> string \<Rightarrow> string \<Rightarrow> string list \<Rightarrow> cstate \<Rightarrow> cstate" where
  "add_channel now team_id team_name channel_id channel_name channel_user_ids s =
     (if channel_user_ids = [] then s
      else (fst s @ channel_user_ids,
            snd s @ map (\<lambda>user_id. (now, team_id, team_name, channel_id, channel_name, user_id))
                      channel_user_ids))"

text \<open>
  The body of \<open>for channel in channels\<close>. \<open>channel['id']\<close> is read before the \<open>try\<close>, so
  its \<open>KeyError\<close> leaves the loop; every exception inside the \<open>try\<close> is caught and the
  state is as it was before the channel.
\<close>

definition process_channel ::
  "driver \<Rightarrow> datetime \<Rightarrow> (string list \<Rightarrow> string list) \<Rightarrow> string \<Rightarrow> string \<Rightarrow> json \<Rightarrow> cstate
     \<Rightarrow> cstate io option" where
  "process_channel drv now iter team_id team_name channel s =
     (case dict_item channel ''id'' of
        Inl e \<Rightarrow> Some ([], Inl e)
      | Inr channel_id \<Rightarrow>
          (case get_all_channel_members drv channel_id of
             None \<Rightarrow> None
           | Some (evs, Inl e) \<Rightarrow> Some (evs, Inr s)
           | Some (evs, Inr members) \<Rightarrow>
               (case member_user_ids members of
                  Inl e \<Rightarrow> Some (evs, Inr s)
                | Inr ids \<Rightarrow>
                    Some (evs, Inr (add_channel now team_id team_name channel_id
                                      (channel_name_of channel) (iter ids) s)))))"

fun process_channels ::
  "driver \<Rightarrow> datetime \<Rightarrow> (string list \<Rightarrow> string list) \<Rightarrow> string \<Rightarrow> string \<Rightarrow> json list \<Rightarrow> cstate
     \<Rightarrow> cstate io option" where
  "process_channels drv now iter team_id team_name [] s = Some ([], Inr s)"
| "process_channels drv now iter team_id team_name (channel # channels) s =
     obind (process_channel drv now iter team_id team_name channel s)
       (process_channels drv now iter team_id team_name channels)"

text \<open>
  The body of \<open>for team in teams\<close>: \<open>team['id']\<close> and \<open>team['name']\<close> are read outside any
  \<open>try\<close>; a failure of \<open>get_channels_for_user\<close> is caught and the loop goes on.
\<close>

definition process_team ::
  "driver \<Rightarrow> datetime \<Rightarrow> (string list \<Rightarrow> string list) \<Rightarrow> json \<Rightarrow> cstate \<Rightarrow> cstate io option" where
  "process_team drv now iter team s =
     (case dict_item team ''id'' of
        Inl e \<Rightarrow> Some ([], Inl e)
      | Inr team_id \<Rightarrow>
          (case dict_item team ''name'' of
             Inl e \<Rightarrow> Some ([], Inl e)
           | Inr team_name \<Rightarrow>
               (case get_channels_for_user drv team_id of
                  Inl e \<Rightarrow> Some ([GetChannels team_id], Inr s)
                | Inr channels \<Rightarrow>
                    map_option (emit [GetChannels team_id])
                      (process_channels drv now iter team_id team_name channels s))))"

fun process_teams ::
  "driver \<Rightarrow> datetime \<Rightarrow> (string list \<Rightarrow> string list) \<Rightarrow> json list \<Rightarrow> cstate
     \<Rightarrow> cstate io option" where
  "process_teams drv now iter [] s = Some ([], Inr s)"
| "process_teams drv now iter (team # teams) s =
     obind (process_team drv now iter team s) (process_teams drv now iter teams)"

section \<open>Resolving user names and statuses\<close>

text \<open>
  A dictionary comprehension \<open>{x[kf]: x[vf] for x in xs}\<close>: a later entry replaces an
  earlier one with the same key, a missing field raises \<open>KeyError\<close>.
\<close>

fun dict_comp ::
  "string \<Rightarrow> string \<Rightarrow> json list \<Rightarrow> (string \<rightharpoonup> string) \<Rightarrow> exn + (string \<rightharpoonup> string)" where
  "dict_comp kf vf [] acc = Inr acc"
| "dict_comp kf vf (x # xs) acc =
     (case dict_item x kf of
        Inl e \<Rightarrow> Inl e
      | Inr k \<Rightarrow>
          (case dict_item x vf of
             Inl e \<Rightarrow> Inl e
           | Inr v \<Rightarrow> dict_comp kf vf xs (acc(k \<mapsto> v))))"

text \<open>
  Lines 202 to 218 of \<open>main\<close>: the result is the events and the two dictionaries
  \<open>user_id_to_username\<close> and \<open>user_id_to_status\<close>. No exception leaves the \<open>try\<close>.
\<close>

definition resolve ::
  "driver \<Rightarrow> (string list \<Rightarrow> string list) \<Rightarrow> string list
     \<Rightarrow> event list \<times> (string \<rightharpoonup> string) \<times> (string \<rightharpoonup> string)" where
  "resolve drv iter all_user_ids_globally =
     (if all_user_ids_globally = [] then ([], Map.empty, Map.empty)
      else
        let user_ids_list = iter all_user_ids_globally in
        (case get_user_statuses_by_id drv user_ids_list of
           Inl e \<Rightarrow> ([GetStatuses user_ids_list], Map.empty, Map.empty)
         | Inr statuses_list \<Rightarrow>
             (case get_users_by_ids drv user_ids_list of
                Inl e \<Rightarrow>
                  ([GetStatuses user_ids_list, Sleep, GetUsers user_ids_list],
                   Map.empty, Map.empty)
              | Inr users_list \<Rightarrow>
                  (case dict_comp ''id'' ''username'' users_list Map.empty of
                     Inl e \<Rightarrow>
                       ([GetStatuses user_ids_list, Sleep, GetUsers user_ids_list],
                        Map.empty, Map.empty)
                   | Inr user_id_to_username \<Rightarrow>
                       (case dict_comp ''user_id'' ''status'' statuses_list Map.empty of
                          Inl e \<Rightarrow>
                            ([GetStatuses user_ids_list, Sleep, GetUsers user_ids_list],
                             user_id_to_username, Map.empty)
                        | Inr user_id_to_status \<Rightarrow>
                            ([GetStatuses user_ids_list, Sleep, GetUsers user_ids_list],
                             user_id_to_username, user_id_to_status))))))"

section \<open>ensure_table_exists\<close>

text \<open>
  \<open>str(e).lower()\<close> on ASCII text, and Python's \<open>needle in haystack\<close> on strings.
\<close>

definition char_lower :: "char \<Rightarrow> char" where
  "char_lower c =
     (let n = (of_char c :: nat) in if 65 \<le> n \<and> n \<le> 90 then char_of (n + 32) else c)"

definition lower :: "string \<Rightarrow> string" where
  "lower s = map char_lower s"

fun is_prefix :: "string \<Rightarrow> string \<Rightarrow> bool" where
  "is_prefix [] ys = True"
| "is_prefix (x # xs) [] = False"
| "is_prefix (x # xs) (y # ys) = (x = y \<and> is_prefix xs ys)"

fun contains :: "string \<Rightarrow> string \<Rightarrow> bool" where
  "contains needle [] = (needle = [])"
| "contains needle (c # cs) = (is_prefix needle (c # cs) \<or> contains needle cs)"

text \<open>The two tests of lines 95 and 97, and the test of line 135.\<close>

definition already_hypertable :: "pg_error \<Rightarrow> bool" where
  "already_hypertable e =
     (if sqlstate e = Some ''42P07'' then True
      else contains ''already a hypertable'' (lower (message e)))"

definition policy_exists :: "pg_error \<Rightarrow> bool" where
  "policy_exists e =
     (sqlstate e = Some ''42710''
      \<or> contains ''already has a compression policy'' (lower (message e)))"

text \<open>
  The five statements of \<open>ensure_table_exists\<close> and its commit, one definition each.
  A failure of \<open>conn.rollback()\<close> is caught only in the first of them.
\<close>

definition ensure_extension :: "conn \<Rightarrow> unit io" where
  "ensure_extension pg =
     (case execute pg CreateExtension of
        None \<Rightarrow> ([Execute CreateExtension], Inr ())
      | Some e \<Rightarrow> ([Execute CreateExtension, Rollback], Inr ()))"

definition create_table :: "conn \<Rightarrow> unit io" where
  "create_table pg =
     (case execute pg CreateTable of
        None \<Rightarrow> ([Execute CreateTable], Inr ())
      | Some e \<Rightarrow> ([Execute CreateTable], Inl (PgError e)))"

definition convert_hypertable :: "conn \<Rightarrow> unit io" where
  "convert_hypertable pg =
     (case execute pg CreateHypertable of
        None \<Rightarrow> ([Execute CreateHypertable], Inr ())
      | Some e \<Rightarrow>
          if already_hypertable e then ([Execute CreateHypertable], Inr ())
          else
            (case rollback pg of
               None \<Rightarrow> ([Execute CreateHypertable, Rollback], Inl (PgError e))
             | Some rb \<Rightarrow> ([Execute CreateHypertable, Rollback], Inl (PgError rb))))"

definition set_compression :: "conn \<Rightarrow> unit io" where
  "set_compression pg =
     (case execute pg SetCompression of
        None \<Rightarrow> ([Execute SetCompression], Inr ())
      | Some e \<Rightarrow>
          (case rollback pg of
             None \<Rightarrow> ([Execute SetCompression, Rollback], Inr ())
           | Some rb \<Rightarrow> ([Execute SetCompression, Rollback], Inl (PgError rb))))"

definition add_policy :: "conn \<Rightarrow> unit io" where
  "add_policy pg =
     (case execute pg AddCompressionPolicy of
        None \<Rightarrow> ([Execute AddCompressionPolicy], Inr ())
      | Some e \<Rightarrow>
          if policy_exists e then ([Execute AddCompressionPolicy], Inr ())
          else
            (case rollback pg of
               None \<Rightarrow> ([Execute AddCompressionPolicy, Rollback], Inr ())
             | Some rb \<Rightarrow> ([Execute AddCompressionPolicy, Rollback], Inl (PgError rb))))"

definition do_commit :: "conn \<Rightarrow> unit io" where
  "do_commit pg =
     (case commit pg of
        None \<Rightarrow> ([Commit], Inr ())
      | Some e \<Rightarrow> ([Commit], Inl (PgError e)))"

definition ensure_table_exists :: "conn \<Rightarrow> unit io" where
  "ensure_table_exists pg =
     then_io (ensure_extension pg) (\<lambda>_.
     then_io (create_table pg) (\<lambda>_.
     then_io (convert_hypertable pg) (\<lambda>_.
     then_io (set_compression pg) (\<lambda>_.
     then_io (add_policy pg) (\<lambda>_.
     do_commit pg)))))"

section \<open>Writing the records\<close>

definition get_or_unknown :: "(string \<rightharpoonup> string) \<Rightarrow> string \<Rightarrow> string" where
  "get_or_unknown m k = (case m k of None \<Rightarrow> ''unknown'' | Some v \<Rightarrow> v)"

fun enrich :: "(string \<rightharpoonup> string) \<Rightarrow> (string \<rightharpoonup> string) \<Rightarrow> collected \<Rightarrow> row" where
  "enrich user_id_to_username user_id_to_status
          (r_now, r_team_id, r_team_name, r_channel_id, r_channel_name, r_user_id) =
     (r_now, r_team_id, r_team_name, r_channel_id, r_channel_name, r_user_id,
      get_or_unknown user_id_to_username r_user_id,
      get_or_unknown user_id_to_status r_user_id)"

text \<open>
  The \<open>for record_data in records_to_process_later\<close> loop, with \<open>processed_count\<close> as its
  state. \<open>batch_size\<close> is \<open>BATCH_SIZE\<close>, any integer; \<open>%\<close> by zero raises, and for the other
  values Python's \<open>%\<close> on integers is \<open>mod\<close>.
\<close>

fun insert_loop ::
  "conn \<Rightarrow> int \<Rightarrow> (string \<rightharpoonup> string) \<Rightarrow> (string \<rightharpoonup> string) \<Rightarrow> collected list \<Rightarrow> int
     \<Rightarrow> int io" where
  "insert_loop pg batch_size un st [] processed_count = ([], Inr processed_count)"
| "insert_loop pg batch_size un st (record_data # rest) processed_count =
     (case execute pg (Insert (enrich un st record_data)) of
        Some e \<Rightarrow> ([Execute (Insert (enrich un st record_data))], Inl (PgError e))
      | None \<Rightarrow>
          if batch_size = 0 then
            ([Execute (Insert (enrich un st record_data))], Inl ZeroDivisionError)
          else if (processed_count + 1) mod batch_size = 0 then
            (case commit pg of
               Some e \<Rightarrow>
                 ([Execute (Insert (enrich un st record_data)), Commit], Inl (PgError e))
             | None \<Rightarrow>
                 emit [Execute (Insert (enrich un st record_data)), Commit]
                   (insert_loop pg batch_size un st rest (processed_count + 1)))
          else
            emit [Execute (Insert (enrich un st record_data))]
              (insert_loop pg batch_size un st rest (processed_count + 1)))"

definition final_commit :: "conn \<Rightarrow> int \<Rightarrow> int \<Rightarrow> unit io" where
  "final_commit pg batch_size processed_count =
     (if processed_count > 0 then
        (if batch_size = 0 then ([], Inl ZeroDivisionError)
         else if processed_count mod batch_size \<noteq> 0 then do_commit pg
         else ([], Inr ()))
      else ([], Inr ()))"

definition write_phase ::
  "conn \<Rightarrow> int \<Rightarrow> (string \<rightharpoonup> string) \<Rightarrow> (string \<rightharpoonup> string) \<Rightarrow> collected list \<Rightarrow> unit io" where
  "write_phase pg batch_size un st records =
     then_io (insert_loop pg batch_size un st records 0) (final_commit pg batch_size)"

section \<open>main\<close>

text \<open>
  The \<open>with get_pg_conn() as conn\<close> block; \<open>ConnExit\<close> marks the point where the block is
  left, normally or by an exception.
\<close>

definition store ::
  "conn \<Rightarrow> int \<Rightarrow> (string \<rightharpoonup> string) \<Rightarrow> (string \<rightharpoonup> string) \<Rightarrow> collected list \<Rightarrow> unit io" where
  "store pg batch_size un st records =
     (case connect pg of
        Some e \<Rightarrow> ([Connect], Inl (PgError e))
      | None \<Rightarrow>
          (let m = then_io (ensure_table_exists pg) (\<lambda>_. write_phase pg batch_size un st records)
           in (Connect # fst m @ [ConnExit], snd m)))"

definition do_logout :: "driver \<Rightarrow> unit io" where
  "do_logout drv =
     (case logout drv of
        None \<Rightarrow> ([Logout], Inr ())
      | Some e \<Rightarrow> ([Logout], Inl e))"

text \<open>
  \<open>now\<close> is the value of \<open>datetime.now(timezone.utc)\<close> at line 164, \<open>iter\<close> the iteration
  order of the sets, \<open>batch_size\<close> the value of \<open>BATCH_SIZE\<close>. \<open>collect\<close> is \<open>main\<close> up to
  line 200: logging in, listing the teams and the two loops.
\<close>

definition collect ::
  "driver \<Rightarrow> datetime \<Rightarrow> (string list \<Rightarrow> string list) \<Rightarrow> cstate io option" where
  "collect drv now iter =
     (case login drv of
        Some e \<Rightarrow> Some ([Login], Inl e)
      | None \<Rightarrow>
          (case get_user_teams drv of
             Inl e \<Rightarrow> Some ([Login, GetUserTeams], Inl e)
           | Inr teams \<Rightarrow>
               map_option (emit [Login, GetUserTeams])
                 (process_teams drv now iter teams ([], []))))"

definition main ::
  "driver \<Rightarrow> conn \<Rightarrow> datetime \<Rightarrow> (string list \<Rightarrow> string list) \<Rightarrow> int \<Rightarrow> unit io option" where
  "main drv pg now iter batch_size =
     obind (collect drv now iter) (\<lambda>s.
       let res = resolve drv iter (fst s) in
       Some (emit (fst res)
               (then_io (store pg batch_size (fst (snd res)) (snd (snd res)) (snd s))
                  (\<lambda>_. do_logout drv))))"

section \<open>Reading a record and a trace\<close>

text \<open>The fields of a collected tuple and of an inserted row.\<close>

fun c_timestamp :: "collected \<Rightarrow> datetime" where
  "c_timestamp (ts, tid, tn, cid, cn, uid) = ts"

fun c_channel_id :: "collected \<Rightarrow> string" where
  "c_channel_id (ts, tid, tn, cid, cn, uid) = cid"

fun c_channel_name :: "collected \<Rightarrow> string" where
  "c_channel_name (ts, tid, tn, cid, cn, uid) = cn"

fun c_user_id :: "collected \<Rightarrow> string" where
  "c_user_id (ts, tid, tn, cid, cn, uid) = uid"

fun r_timestamp :: "row \<Rightarrow> datetime" where
  "r_timestamp (ts, tid, tn, cid, cn, uid, un, st) = ts"

fun r_username :: "row \<Rightarrow> string" where
  "r_username (ts, tid, tn, cid, cn, uid, un, st) = un"

fun r_status :: "row \<Rightarrow> string" where
  "r_status (ts, tid, tn, cid, cn, uid, un, st) = st"

fun collected_part :: "row \<Rightarrow> collected" where
  "collected_part (ts, tid, tn, cid, cn, uid, un, st) = (ts, tid, tn, cid, cn, uid)"

definition commits :: "event list \<Rightarrow> nat" where
  "commits evs = length (filter (\<lambda>e. e = Commit) evs)"

definition inserted_rows :: "event list \<Rightarrow> row list" where
  "inserted_rows evs =
     concat (map (\<lambda>e. case e of Execute (Insert r) \<Rightarrow> [r] | _ \<Rightarrow> []) evs)"

text \<open>A connection on which no INSERT and no commit fails.\<close>

definition db_ok :: "conn \<Rightarrow> bool" where
  "db_ok pg = (commit pg = None \<and> (\<forall>r. execute pg (Insert r) = None))"

text \<open>
  What the loop issues for the row at position \<open>fst p\<close> (counted from 0): the INSERT, and
  a commit when the number of rows inserted so far is a multiple of the batch size.
\<close>

definition loop_events :: "int \<Rightarrow> nat \<times> row \<Rightarrow> event list" where
  "loop_events B p =
     Execute (Insert (snd p)) # (if (int (fst p) + 1) mod B = 0 then [Commit] else [])"

text \<open>
  The batching as the specification words it, for \<open>N\<close> rows in all: a commit follows the
  row at position \<open>fst p\<close> when a batch of \<open>B\<close> is full or the row is the last one.
\<close>

definition insert_events :: "int \<Rightarrow> nat \<Rightarrow> nat \<times> row \<Rightarrow> event list" where
  "insert_events B N p =
     Execute (Insert (snd p)) #
       (if (int (fst p) + 1) mod B = 0 \<or> fst p + 1 = N then [Commit] else [])"

section \<open>Example runs\<close>

definition pg_ok :: conn where
  "pg_ok = \<lparr>connect = None, execute = (\<lambda>_. None), rollback = None, commit = None\<rparr>"

definition five_records :: "collected list" where
  "five_records =
     [(1700000000, ''t1'', ''alpha'', ''c1'', ''Town Square'', ''u1''),
      (1700000000, ''t1'', ''alpha'', ''c1'', ''Town Square'', ''u2''),
      (1700000000, ''t1'', ''alpha'', ''c2'', ''Off-Topic'', ''u1''),
      (1700000000, ''t2'', ''beta'', ''c3'', ''Town Square'', ''u2''),
      (1700000000, ''t2'', ''beta'', ''c3'', ''Town Square'', ''u3'')]"

text \<open>The items of page \<open>p\<close> of a channel, and the page numbers a trace asks for.\<close>

definition page_items :: "driver \<Rightarrow> string \<Rightarrow> nat \<Rightarrow> json list" where
  "page_items drv channel_id p =
     (case get_channel_members drv channel_id p per_page of Inl e \<Rightarrow> [] | Inr ms \<Rightarrow> ms)"

definition fetches :: "event list \<Rightarrow> nat list" where
  "fetches evs = concat (map (\<lambda>e. case e of GetMembers c p n \<Rightarrow> [p] | _ \<Rightarrow> []) evs)"

text \<open>Page \<open>k\<close> is the first empty one, and no page before it fails.\<close>

definition first_empty_page :: "driver \<Rightarrow> string \<Rightarrow> nat \<Rightarrow> bool" where
  "first_empty_page drv channel_id k =
     (get_channel_members drv channel_id k per_page = Inr [] \<and>
      (\<forall>p < k. \<exists>ms. get_channel_members drv channel_id p per_page = Inr ms \<and> ms \<noteq> []))"

text \<open>A channel with 250 members, served in pages of the size asked for.\<close>

definition members250 :: "json list" where
  "members250 = map (\<lambda>i. [(''user_id'', replicate (Suc i) (CHR ''u''))]) [0..<250]"

definition drv250 :: driver where
  "drv250 = \<lparr>login = None, get_user_teams = Inr [[(''id'', ''t1''), (''name'', ''alpha'')]],
     get_channels_for_user = (\<lambda>t. Inr [[(''id'', ''c1''), (''display_name'', ''Town Square'')]]),
     get_channel_members = (\<lambda>c page n. Inr (take n (drop (page * n) members250))),
     get_user_statuses_by_id = (\<lambda>ids. Inr []),
     get_users_by_ids = (\<lambda>ids. Inr []),
     logout = None\<rparr>"

text \<open>
  An account in three teams. The channels of team \<open>gamma\<close> cannot be listed; team
  \<open>alpha\<close> has a channel with a member listed twice, a channel whose members cannot be
  listed and an empty channel; team \<open>beta\<close> has a direct-message channel, whose display
  name is empty. The user \<open>u2\<close> is not among the users the server knows by name.
\<close>

definition team_a :: json where "team_a = [(''id'', ''tA''), (''name'', ''alpha'')]"
definition team_b :: json where "team_b = [(''id'', ''tB''), (''name'', ''beta'')]"
definition team_c :: json where "team_c = [(''id'', ''tC''), (''name'', ''gamma'')]"

definition chan_a :: json where
  "chan_a = [(''id'', ''cA''), (''display_name'', ''Town Square''), (''name'', ''town-square'')]"
definition chan_x :: json where
  "chan_x = [(''id'', ''cX''), (''name'', ''broken'')]"
definition chan_e :: json where
  "chan_e = [(''id'', ''cE'')]"
definition chan_b :: json where
  "chan_b = [(''id'', ''cB''), (''display_name'', ''''), (''name'', ''u2__u3'')]"

definition member :: "string \<Rightarrow> json" where
  "member u = [(''user_id'', u), (''roles'', ''channel_user'')]"

definition drv_ex :: driver where
  "drv_ex = \<lparr>login = None,
     get_user_teams = Inr [team_a, team_c, team_b],
     get_channels_for_user = (\<lambda>t.
        if t = ''tA'' then Inr [chan_a, chan_x, chan_e]
        else if t = ''tB'' then Inr [chan_b]
        else Inl (ApiError ''503'')),
     get_channel_members = (\<lambda>c page n.
        if c = ''cX'' then Inl (ApiError ''403'')
        else if page = 0 \<and> c = ''cA'' then Inr [member ''u1'', member ''u2'', member ''u1'']
        else if page = 0 \<and> c = ''cB'' then Inr [member ''u2'', member ''u3'']
        else Inr []),
     get_user_statuses_by_id = (\<lambda>ids. Inr
        [[(''user_id'', ''u1''), (''status'', ''online'')],
         [(''user_id'', ''u2''), (''status'', ''away'')],
         [(''user_id'', ''u3''), (''status'', ''offline'')]]),
     get_users_by_ids = (\<lambda>ids. Inr
        [[(''id'', ''u1''), (''username'', ''alice'')],
         [(''id'', ''u3''), (''username'', ''carol'')]]),
     logout = None\<rparr>"

definition now_ex :: datetime where "now_ex = 1700000000"

definition collected_ex :: cstate where
  "collected_ex =
     ([''u2'', ''u1'', ''u2'', ''u3''],
      [(now_ex, ''tA'', ''alpha'', ''cA'', ''Town Square'', ''u2''),
       (now_ex, ''tA'', ''alpha'', ''cA'', ''Town Square'', ''u1''),
       (now_ex, ''tB'', ''beta'', ''cB'', ''u2__u3'', ''u2''),
       (now_ex, ''tB'', ''beta'', ''cB'', ''u2__u3'', ''u3'')])"

definition collect_trace_ex :: "event list" where
  "collect_trace_ex =
     [Login, GetUserTeams, GetChannels ''tA'', GetMembers ''cA'' 0 200, Sleep,
      GetMembers ''cA'' 1 200, GetMembers ''cX'' 0 200,
      GetMembers ''cE'' 0 200, GetChannels ''tC'', GetChannels ''tB'',
      GetMembers ''cB'' 0 200, Sleep, GetMembers ''cB'' 1 200]"

definition store_trace_ex :: "event list" where
  "store_trace_ex =
     [Connect, Execute CreateExtension,
      Execute CreateTable, Execute CreateHypertable, Execute SetCompression,
      Execute AddCompressionPolicy, Commit,
      Execute (Insert (now_ex, ''tA'', ''alpha'', ''cA'', ''Town Square'', ''u2'', ''unknown'', ''away'')),
      Execute (Insert (now_ex, ''tA'', ''alpha'', ''cA'', ''Town Square'', ''u1'', ''alice'', ''online'')),
      Execute (Insert (now_ex, ''tB'', ''beta'', ''cB'', ''u2__u3'', ''u2'', ''unknown'', ''away'')),
      Execute (Insert (now_ex, ''tB'', ''beta'', ''cB'', ''u2__u3'', ''u3'', ''carol'', ''offline'')),
      Commit, ConnExit, Logout]"

text \<open>
  The channel name as the amended claim C8 words it: the display name when there is one and
  it is not empty, otherwise the name when there is one, otherwise \<open>unknown\<close>.
\<close>

definition channel_name_policy :: "json \<Rightarrow> string" where
  "channel_name_policy channel =
     (case dict_get channel ''display_name'' of
        Some (c # cs) \<Rightarrow> c # cs
      | _ \<Rightarrow> (case dict_get channel ''name'' of Some n \<Rightarrow> n | None \<Rightarrow> ''unknown''))"

text \<open>The status and user lookups of a trace.\<close>

definition lookups :: "event list \<Rightarrow> event list" where
  "lookups evs =
     filter (\<lambda>e. case e of GetStatuses ids \<Rightarrow> True | GetUsers ids \<Rightarrow> True | _ \<Rightarrow> False) evs"

text \<open>The account of the example without any team, and with a failing user lookup.\<close>

definition drv_no_teams :: driver where
  "drv_no_teams = drv_ex\<lparr>get_user_teams := Inr []\<rparr>"

definition drv_lookup_fails :: driver where
  "drv_lookup_fails = drv_ex\<lparr>get_users_by_ids := (\<lambda>ids. Inl (ApiError ''500''))\<rparr>"

text \<open>The conversion to a hypertable succeeds, or fails with "already a hypertable".\<close>

definition hypertable_ok :: "conn \<Rightarrow> bool" where
  "hypertable_ok pg =
     (case execute pg CreateHypertable of None \<Rightarrow> True | Some e \<Rightarrow> already_hypertable e)"

text \<open>
  A database without the hypertable function, and a database on which the script has
  run before and the account may not create extensions.
\<close>

definition pg_no_timescale :: conn where
  "pg_no_timescale = \<lparr>connect = None,
     execute = (\<lambda>q. if q = CreateHypertable
        then Some (PgErr (Some ''42883'') ''function create_hypertable(unknown, unknown) does not exist'')
        else None),
     rollback = None, commit = None\<rparr>"

definition pg_rerun :: conn where
  "pg_rerun = \<lparr>connect = None,
     execute = (\<lambda>q. case q of
          CreateExtension \<Rightarrow> Some (PgErr (Some ''42501'') ''permission denied to create extension'')
        | CreateHypertable \<Rightarrow>
            Some (PgErr (Some ''TS110'') ''table channel_user_status is Already a Hypertable'')
        | SetCompression \<Rightarrow> Some (PgErr (Some ''0A000'') ''cannot change configuration'')
        | AddCompressionPolicy \<Rightarrow> Some (PgErr (Some ''42710'') ''compression policy already exists'')
        | _ \<Rightarrow> None),
     rollback = None, commit = None\<rparr>"

text \<open>
  A connection that is lost while the compression settings are applied, so that the
  roll-back raises too, and one that is lost before the first statement.
\<close>

definition pg_lost :: conn where
  "pg_lost = \<lparr>connect = None,
     execute = (\<lambda>q. if q = SetCompression
        then Some (PgErr (Some ''57P01'') ''terminating connection due to administrator command'')
        else None),
     rollback = Some (PgErr None ''the connection is lost''),
     commit = None\<rparr>"

definition pg_lost_early :: conn where
  "pg_lost_early = pg_lost\<lparr>execute :=
     (\<lambda>q. Some (PgErr (Some ''57P01'') ''terminating connection due to administrator command''))\<rparr>"

section \<open>The batched writer\<close>

lemma db_ok_execute: "db_ok pg \<Longrightarrow> execute pg (Insert x) = None"
  unfolding db_ok_def by blast

lemma db_ok_commit: "db_ok pg \<Longrightarrow> commit pg = None"
  unfolding db_ok_def by blast

lemma insert_loop_ok:
  assumes "0 < B" "db_ok pg"
  shows "insert_loop pg B un st rs (int n) =
     (concat (map (loop_events B) (enumerate n (map (enrich un st) rs))),
      Inr (int (n + length rs)))"
proof (induction rs arbitrary: n)
  case Nil
  then show ?case by simp
next
  case (Cons r rs)
  have s: "int n + 1 = int (Suc n)" by simp
  show ?case using assms(1)
    by (simp only: insert_loop.simps s Cons.IH db_ok_execute[OF assms(2)]
          db_ok_commit[OF assms(2)] list.map enumerate_simps concat.simps loop_events_def)
       (simp add: emit_def add.commute)
qed

lemma div_succ:
  fixes a B :: int
  assumes "0 < B"
  shows "(a + 1) div B = a div B + (if (a + 1) mod B = 0 then 1 else 0)"
proof -
  let ?q = "a div B" and ?r = "a mod B"
  have a: "a = B * ?q + ?r" by simp
  have r: "0 \<le> ?r" "?r < B" using assms by simp_all
  show ?thesis
  proof (cases "?r + 1 < B")
    case True
    have e: "a + 1 = B * ?q + (?r + 1)" using a by linarith
    have "(a + 1) div B = ?q"
      using e True r by (intro int_div_pos_eq[where r = "?r + 1"]) auto
    moreover have "(a + 1) mod B = ?r + 1"
      using e True r by (intro int_mod_pos_eq[where q = "?q"]) auto
    ultimately show ?thesis using r by simp
  next
    case False
    then have rb: "?r = B - 1" using r by linarith
    have e: "a + 1 = B * (?q + 1) + 0"
      using a rb by (simp add: algebra_simps)
    have "(a + 1) div B = ?q + 1"
      using e assms by (intro int_div_pos_eq[where r = 0]) auto
    moreover have "(a + 1) mod B = 0"
      using e assms by (intro int_mod_pos_eq[where q = "?q + 1"]) auto
    ultimately show ?thesis by simp
  qed
qed


lemma commits_batches:
  assumes "0 < B"
  shows "int (length (filter (\<lambda>e. e = Commit) (concat (map (loop_events B) (enumerate n rows)))))
     = (int n + int (length rows)) div B - int n div B"
proof (induction rows arbitrary: n)
  case Nil
  then show ?case by simp
next
  case (Cons r rows)
  have d: "(int n + 1) div B = int n div B + (if (int n + 1) mod B = 0 then 1 else 0)"
    using assms div_succ by simp
  show ?case using Cons.IH[of "Suc n"] assms d
    by (simp add: loop_events_def add.commute add.left_commute)
qed

lemma final_commit_shape:
  assumes "0 < B" "n + length rows = N" "rows \<noteq> []"
  shows "concat (map (loop_events B) (enumerate n rows)) @
           (if int N mod B \<noteq> 0 then [Commit] else [])
         = concat (map (insert_events B N) (enumerate n rows))"
  using assms(2,3)
proof (induction rows arbitrary: n)
  case Nil
  then show ?case by simp
next
  case (Cons r rows)
  show ?case
  proof (cases "rows = []")
    case True
    then show ?thesis using Cons.prems
      by (auto simp: loop_events_def insert_events_def add.commute)
  next
    case False
    have "Suc n + length rows = N" using Cons.prems by simp
    moreover have "Suc n \<noteq> N" using Cons.prems False by (cases rows) auto
    ultimately show ?thesis using Cons.IH[of "Suc n"] Cons.prems False
      by (simp add: loop_events_def insert_events_def)
  qed
qed

lemma ceiling_div:
  fixes B :: int
  assumes "0 < B"
  shows "\<lceil>real N / real_of_int B\<rceil> = int N div B + (if int N mod B = 0 then 0 else 1)"
proof -
  have "\<lceil>real N / real_of_int B\<rceil> = \<lceil>real_of_int (int N) / real_of_int B\<rceil>" by simp
  also have "\<dots> = - (- int N div B)" by (rule ceiling_divide_eq_div)
  also have "\<dots> = int N div B + (if int N mod B = 0 then 0 else 1)"
    using assms by (simp add: zdiv_zminus1_eq_if)
  finally show ?thesis .
qed

text \<open>
  C2. With \<open>N\<close> records and a positive batch size \<open>B\<close>, on a connection where no INSERT and
  no commit fails, the write phase ends normally after exactly \<open>\<lceil>N / B\<rceil>\<close> commits: one
  after every \<open>B\<close>-th INSERT and one after the last INSERT when \<open>N\<close> is not a multiple of
  \<open>B\<close>; with no record there is no commit.
\<close>

theorem write_phase_commits:
  assumes "0 < B" and "db_ok pg"
  shows "snd (write_phase pg B un st records) = Inr () \<and>
         int (commits (fst (write_phase pg B un st records)))
           = \<lceil>real (length records) / real_of_int B\<rceil> \<and>
         fst (write_phase pg B un st records)
           = concat (map (insert_events B (length records))
                       (enumerate 0 (map (enrich un st) records)))"
proof -
  let ?N = "length records"
  let ?loop = "concat (map (loop_events B) (enumerate 0 (map (enrich un st) records)))"
  have loop: "insert_loop pg B un st records 0 = (?loop, Inr (int ?N))"
    using insert_loop_ok[OF assms, of un st records 0] by simp
  have fin: "final_commit pg B (int ?N) =
               ((if int ?N mod B \<noteq> 0 then [Commit] else []), Inr ())"
    using assms(1) db_ok_commit[OF assms(2)]
    by (auto simp: final_commit_def do_commit_def)
  have wp: "write_phase pg B un st records =
              (?loop @ (if int ?N mod B \<noteq> 0 then [Commit] else []), Inr ())"
    by (simp add: write_phase_def then_io_def loop fin emit_def)
  have cnt: "int (length (filter (\<lambda>e. e = Commit) ?loop)) = int ?N div B"
    using commits_batches[OF assms(1), of 0 "map (enrich un st) records"] by simp
  have c: "int (commits (?loop @ (if int ?N mod B \<noteq> 0 then [Commit] else [])))
             = \<lceil>real ?N / real_of_int B\<rceil>"
    using cnt by (simp add: commits_def ceiling_div[OF assms(1)])
  have shape: "?loop @ (if int ?N mod B \<noteq> 0 then [Commit] else [])
      = concat (map (insert_events B ?N) (enumerate 0 (map (enrich un st) records)))"
  proof (cases "records = []")
    case True
    then show ?thesis by simp
  next
    case False
    then show ?thesis
      using final_commit_shape[OF assms(1), of 0 "map (enrich un st) records" ?N] by simp
  qed
  show ?thesis using wp c shape by simp
qed

theorem write_phase_commits_witness:
  "(0::int) < 2 \<and> db_ok pg_ok \<and>
   snd (write_phase pg_ok 2 Map.empty Map.empty five_records) = Inr () \<and>
   commits (fst (write_phase pg_ok 2 Map.empty Map.empty five_records)) = 3"
proof -
  have h: "(0::int) < 2" by simp
  have d: "db_ok pg_ok" by (simp add: db_ok_def pg_ok_def)
  have t: "snd (write_phase pg_ok 2 Map.empty Map.empty five_records) = Inr () \<and>
           int (commits (fst (write_phase pg_ok 2 Map.empty Map.empty five_records)))
             = \<lceil>real (length five_records) / real_of_int 2\<rceil>"
    using write_phase_commits [OF h d, of Map.empty Map.empty five_records] by blast
  have n: "length five_records = 5" by (simp add: five_records_def)
  have c: "\<lceil>real (5::nat) / real_of_int 2\<rceil> = 3" by simp
  show ?thesis using t h d unfolding n c by simp
qed

section \<open>The paginator\<close>

lemma members_loop_pages:
  assumes "get_channel_members drv c (start + k) per_page = Inr []"
    and "\<forall>p < k. \<exists>ms. get_channel_members drv c (start + p) per_page = Inr ms \<and> ms \<noteq> []"
  shows "members_loop (get_channel_members drv) c start acc =
     Some (concat (map (\<lambda>p. [GetMembers c p per_page, Sleep]) [start..<start + k])
             @ [GetMembers c (start + k) per_page],
           Inr (acc @ concat (map (page_items drv c) [start..<start + k])))"
  using assms
proof (induction k arbitrary: start acc)
  case 0
  then show ?case by (subst members_loop.simps) simp
next
  case (Suc k)
  from Suc.prems(2) obtain ms where ms: "get_channel_members drv c start per_page = Inr ms" "ms \<noteq> []"
    by force
  have a: "get_channel_members drv c (Suc start + k) per_page = Inr []"
    using Suc.prems(1) by simp
  have b: "\<forall>p<k. \<exists>ms. get_channel_members drv c (Suc start + p) per_page = Inr ms \<and> ms \<noteq> []"
  proof (intro allI impI)
    fix p assume "p < k"
    then have "Suc p < Suc k" by simp
    with Suc.prems(2) show "\<exists>ms. get_channel_members drv c (Suc start + p) per_page = Inr ms \<and> ms \<noteq> []"
      by (metis add_Suc_shift)
  qed
  have u: "[start..<start + Suc k] = start # [Suc start..<Suc start + k]"
    by (simp add: upt_conv_Cons)
  have pi: "page_items drv c start = ms"
    by (simp add: page_items_def ms)
  have "members_loop (get_channel_members drv) c start acc =
          Option.bind (members_loop (get_channel_members drv) c (Suc start) (acc @ ms))
            (\<lambda>r. Some (emit [GetMembers c start per_page, Sleep] r))"
    by (subst members_loop.simps) (simp add: ms)
  also have "\<dots> = Some (emit [GetMembers c start per_page, Sleep]
      (concat (map (\<lambda>p. [GetMembers c p per_page, Sleep]) [Suc start..<Suc start + k])
             @ [GetMembers c (Suc start + k) per_page],
           Inr ((acc @ ms) @ concat (map (page_items drv c) [Suc start..<Suc start + k]))))"
    by (simp only: Suc.IH[OF a b] Option.bind.simps)
  also have "\<dots> = Some (concat (map (\<lambda>p. [GetMembers c p per_page, Sleep]) [start..<start + Suc k])
             @ [GetMembers c (start + Suc k) per_page],
           Inr (acc @ concat (map (page_items drv c) [start..<start + Suc k])))"
    unfolding u by (simp add: emit_def pi)
  finally show ?case .
qed

text \<open>
  C6, as amended. The paginator asks for the pages 0, 1, 2, ... in this order and stops at
  the first empty page: when page \<open>k\<close> is the first empty page and no earlier page fails,
  it issues exactly \<open>k + 1\<close> fetches, for the pages 0 to \<open>k\<close>, and returns the
  concatenation of the pages 0 to \<open>k - 1\<close>. For 250 members in pages of 200 these are
  three fetches (200 items, 50 items, none).
\<close>

theorem paginator_fetches_until_empty:
  assumes "first_empty_page drv c k"
  shows "\<exists>evs. get_all_channel_members drv c = Some (evs, Inr (concat (map (page_items drv c) [0..<k])))
           \<and> fetches evs = [0..<Suc k]"
proof -
  have f: "fetches (concat (map (\<lambda>p. [GetMembers c p per_page, Sleep]) ps) @ [GetMembers c k per_page])
             = ps @ [k]" for ps
    by (induction ps) (simp_all add: fetches_def)
  from assms have "members_loop (get_channel_members drv) c 0 [] =
     Some (concat (map (\<lambda>p. [GetMembers c p per_page, Sleep]) [0..<0 + k])
             @ [GetMembers c (0 + k) per_page],
           Inr ([] @ concat (map (page_items drv c) [0..<0 + k])))"
    unfolding first_empty_page_def by (intro members_loop_pages) simp_all
  then show ?thesis using f[of "[0..<k]"]
    by (simp add: get_all_channel_members_def)
qed

lemma run250:
  "get_all_channel_members drv250 ''c1'' =
     Some ([GetMembers ''c1'' 0 200, Sleep, GetMembers ''c1'' 1 200, Sleep,
            GetMembers ''c1'' 2 200], Inr members250)"
proof -
  have p0: "get_channel_members drv250 ''c1'' 0 200 = Inr (take 200 members250)"
    by (simp add: drv250_def)
  have p1: "get_channel_members drv250 ''c1'' (Suc 0) 200 = Inr (drop 200 members250)"
    by (simp add: drv250_def members250_def)
  have p2: "get_channel_members drv250 ''c1'' (Suc (Suc 0)) 200 = Inr []"
    by (simp add: drv250_def members250_def)
  have n0: "take 200 members250 \<noteq> []" by (simp add: members250_def)
  have n1: "drop 200 members250 \<noteq> []" by (simp add: members250_def)
  have l2: "members_loop (get_channel_members drv250) ''c1'' (Suc (Suc 0)) xs
              = Some ([GetMembers ''c1'' 2 200], Inr xs)" for xs
    by (subst members_loop.simps) (simp add: p2 per_page_def numeral_2_eq_2)
  have l1: "members_loop (get_channel_members drv250) ''c1'' (Suc 0) xs
              = Some ([GetMembers ''c1'' 1 200, Sleep, GetMembers ''c1'' 2 200],
                      Inr (xs @ drop 200 members250))" for xs
    by (subst members_loop.simps) (simp add: p1 n1 [simplified] l2 emit_def per_page_def)
  show ?thesis unfolding get_all_channel_members_def
    by (subst members_loop.simps) (simp add: p0 n0 [simplified] l1 emit_def per_page_def)
qed

text \<open>
  C6 as stated fails: for a channel of 250 members the paginator issues three fetches,
  not two, since only an empty page ends the loop.
\<close>

theorem paginator_250_counterexample:
  "length members250 = 250 \<and>
   fetches (fst (the (get_all_channel_members drv250 ''c1''))) = [0, 1, 2] \<and>
   length (fetches (fst (the (get_all_channel_members drv250 ''c1'')))) \<noteq> 2"
  by (simp add: run250 fetches_def members250_def)

theorem paginator_fetches_until_empty_witness:
  "first_empty_page drv250 ''c1'' 2 \<and>
   (\<exists>evs. get_all_channel_members drv250 ''c1''
             = Some (evs, Inr (concat (map (page_items drv250 ''c1'') [0..<2])))
      \<and> fetches evs = [0..<Suc 2])"
proof -
  have h: "first_empty_page drv250 ''c1'' 2"
    by (auto simp: first_empty_page_def drv250_def per_page_def members250_def
          less_Suc_eq numeral_2_eq_2)
  show ?thesis using paginator_fetches_until_empty [OF h] h by simp
qed

section \<open>Sequencing\<close>

lemma emit_Nil: "emit [] m = m"
  by (simp add: emit_def)

lemma emit_emit: "emit a (emit b m) = emit (a @ b) m"
  by (simp add: emit_def)

lemma emit_pair: "emit a (evs, r) = (a @ evs, r)"
  by (simp add: emit_def)

lemma obind_None: "obind None k = None"
  by (simp add: obind_def)

lemma obind_Inl: "obind (Some (evs, Inl e)) k = Some (evs, Inl e)"
  by (simp add: obind_def)

lemma obind_Inr: "obind (Some (evs, Inr x)) k = map_option (emit evs) (k x)"
  by (simp add: obind_def)

lemma obind_emit: "obind (map_option (emit a) m) k = map_option (emit a) (obind m k)"
proof (cases m)
  case None
  then show ?thesis by (simp add: obind_def)
next
  case (Some p)
  obtain evs r where p: "p = (evs, r)" by (cases p)
  show ?thesis
    by (cases r)
       (simp_all add: Some p obind_def emit_pair emit_emit option.map_comp comp_def)
qed

lemma obind_assoc: "obind (obind m f) g = obind m (\<lambda>x. obind (f x) g)"
proof (cases m)
  case None
  then show ?thesis by (simp add: obind_def)
next
  case (Some p)
  obtain evs r where p: "p = (evs, r)" by (cases p)
  show ?thesis
  proof (cases r)
    case (Inl e)
    then show ?thesis by (simp add: Some p obind_Inl)
  next
    case (Inr x)
    then show ?thesis by (simp add: Some p obind_Inr obind_emit)
  qed
qed

text \<open>What is known when a sequence ends normally.\<close>

lemma obind_Some_Inr:
  assumes "obind m k = Some (evs, Inr y)"
  obtains evs1 x evs2 where "m = Some (evs1, Inr x)" "k x = Some (evs2, Inr y)" "evs = evs1 @ evs2"
proof (cases m)
  case None
  with assms show ?thesis by (simp add: obind_def)
next
  case (Some p)
  obtain evs1 r where p: "p = (evs1, r)" by (cases p)
  show ?thesis
  proof (cases r)
    case (Inl e)
    with assms Some p show ?thesis by (simp add: obind_Inl)
  next
    case (Inr x)
    with assms Some p obtain q where q: "k x = Some q" "emit evs1 q = (evs, Inr y)"
      by (auto simp: obind_Inr)
    then have "k x = Some (fst q, Inr y)" "evs = evs1 @ fst q"
      by (cases q; simp add: emit_def)+
    with Some p Inr that show ?thesis by blast
  qed
qed

lemma obind_Some:
  assumes "obind m k = Some (evs, r)"
  obtains e where "m = Some (evs, Inl e)" "r = Inl e"
  | evs1 x evs2 where "m = Some (evs1, Inr x)" "k x = Some (evs2, r)" "evs = evs1 @ evs2"
proof (cases m)
  case None
  with assms show ?thesis by (simp add: obind_def)
next
  case (Some p)
  obtain evs1 r1 where p: "p = (evs1, r1)" by (cases p)
  show ?thesis
  proof (cases r1)
    case (Inl e)
    with assms Some p that(1) show ?thesis by (simp add: obind_Inl)
  next
    case (Inr x)
    with assms Some p obtain q where q: "k x = Some q" "emit evs1 q = (evs, r)"
      by (auto simp: obind_Inr)
    then have "k x = Some (fst q, r)" "evs = evs1 @ fst q"
      by (cases q; simp add: emit_def)+
    with Some p Inr that(2) show ?thesis by blast
  qed
qed

section \<open>The two loops\<close>

lemma process_channels_append:
  "process_channels drv now iter tid tn (cs1 @ cs2) s =
     obind (process_channels drv now iter tid tn cs1 s) (process_channels drv now iter tid tn cs2)"
proof (induction cs1 arbitrary: s)
  case Nil
  show ?case by (simp add: obind_Inr emit_Nil option.map_ident cong: option.map_cong)
next
  case (Cons c cs1)
  have "process_channels drv now iter tid tn (cs1 @ cs2) =
          (\<lambda>x. obind (process_channels drv now iter tid tn cs1 x)
                  (process_channels drv now iter tid tn cs2))"
    by (rule ext) (rule Cons.IH)
  then show ?case by (simp add: obind_assoc)
qed

lemma process_teams_append:
  "process_teams drv now iter (ts1 @ ts2) s =
     obind (process_teams drv now iter ts1 s) (process_teams drv now iter ts2)"
proof (induction ts1 arbitrary: s)
  case Nil
  show ?case by (simp add: obind_Inr emit_Nil option.map_ident cong: option.map_cong)
next
  case (Cons t ts1)
  have "process_teams drv now iter (ts1 @ ts2) =
          (\<lambda>x. obind (process_teams drv now iter ts1 x) (process_teams drv now iter ts2))"
    by (rule ext) (rule Cons.IH)
  then show ?case by (simp add: obind_assoc)
qed

lemma obind_cong_snd:
  assumes "\<And>x. map_option snd (k x) = map_option snd (k' x)"
  shows "map_option snd (obind m k) = map_option snd (obind m k')"
proof (cases m)
  case None
  then show ?thesis by (simp add: obind_def)
next
  case (Some p)
  obtain evs r where p: "p = (evs, r)" by (cases p)
  have "map_option snd (map_option (emit evs) (k x)) = map_option snd (map_option (emit evs) (k' x))" for x
    using assms[of x] by (simp add: option.map_comp comp_def emit_def)
  then show ?thesis by (cases r) (simp_all add: Some p obind_Inl obind_Inr)
qed

lemma snd_map_emit: "map_option snd (map_option (emit a) m) = map_option snd m"
  by (simp add: option.map_comp comp_def emit_def)

lemma process_team_fetch_fails:
  assumes "dict_item team ''id'' = Inr tid" and "dict_item team ''name'' = Inr tn"
    and "get_channels_for_user drv tid = Inl e"
  shows "process_team drv now iter team s = Some ([GetChannels tid], Inr s)"
  using assms by (simp add: process_team_def)

lemma process_channel_listing_fails:
  assumes "dict_item channel ''id'' = Inr cid"
    and "get_all_channel_members drv cid = Some (evs, Inl e)"
  shows "process_channel drv now iter tid tn channel s = Some (evs, Inr s)"
  using assms by (simp add: process_channel_def)

lemma skip_team:
  assumes "\<And>s. process_team drv now iter team s = Some (evs, Inr s)"
  shows "map_option snd (process_teams drv now iter (ts1 @ team # ts2) s)
       = map_option snd (process_teams drv now iter (ts1 @ ts2) s)"
  unfolding process_teams_append
  by (rule obind_cong_snd) (simp add: assms obind_Inr snd_map_emit)

lemma skip_channel:
  assumes "\<And>s. process_channel drv now iter tid tn channel s = Some (evs, Inr s)"
  shows "map_option snd (process_channels drv now iter tid tn (cs1 @ channel # cs2) s)
       = map_option snd (process_channels drv now iter tid tn (cs1 @ cs2) s)"
  unfolding process_channels_append
  by (rule obind_cong_snd) (simp add: assms obind_Inr snd_map_emit)

text \<open>Each channel either leaves the state as it is or adds its users to it.\<close>

lemma process_channel_cases:
  assumes "process_channel drv now iter tid tn channel s = Some (evs, Inr s')"
  obtains "s' = s"
  | cid members ids where "dict_item channel ''id'' = Inr cid"
      "get_all_channel_members drv cid = Some (evs, Inr members)"
      "member_user_ids members = Inr ids"
      "s' = add_channel now tid tn cid (channel_name_of channel) (iter ids) s"
  using assms
  by (auto simp: process_channel_def split: sum.splits option.splits)

lemma process_channels_invariant:
  assumes step: "\<And>tid tn channel cid evs members ids s.
      P s \<Longrightarrow> dict_item channel ''id'' = Inr cid \<Longrightarrow>
      get_all_channel_members drv cid = Some (evs, Inr members) \<Longrightarrow>
      member_user_ids members = Inr ids \<Longrightarrow>
      P (add_channel now tid tn cid (channel_name_of channel) (iter ids) s)"
    and "P s" and "process_channels drv now iter tid tn cs s = Some (evs, Inr s')"
  shows "P s'"
  using assms(2,3)
proof (induction cs arbitrary: s evs)
  case Nil
  then show ?case by simp
next
  case (Cons c cs)
  from Cons.prems(2) obtain evs1 s1 evs2 where
    c: "process_channel drv now iter tid tn c s = Some (evs1, Inr s1)" and
    cs: "process_channels drv now iter tid tn cs s1 = Some (evs2, Inr s')"
    by (auto elim: obind_Some_Inr)
  from c have "P s1"
    by (rule process_channel_cases) (use Cons.prems(1) step in auto)
  then show ?case using cs by (rule Cons.IH)
qed

lemma process_team_invariant:
  assumes step: "\<And>tid tn channel cid evs members ids s.
      P s \<Longrightarrow> dict_item channel ''id'' = Inr cid \<Longrightarrow>
      get_all_channel_members drv cid = Some (evs, Inr members) \<Longrightarrow>
      member_user_ids members = Inr ids \<Longrightarrow>
      P (add_channel now tid tn cid (channel_name_of channel) (iter ids) s)"
    and "P s" and "process_team drv now iter team s = Some (evs, Inr s')"
  shows "P s'"
proof (cases "\<exists>tid tn channels. dict_item team ''id'' = Inr tid \<and> dict_item team ''name'' = Inr tn
          \<and> get_channels_for_user drv tid = Inr channels")
  case True
  then obtain tid tn channels where t: "dict_item team ''id'' = Inr tid"
    "dict_item team ''name'' = Inr tn" "get_channels_for_user drv tid = Inr channels"
    by blast
  with assms(3) obtain q where q: "process_channels drv now iter tid tn channels s = Some q"
      "emit [GetChannels tid] q = (evs, Inr s')"
    by (auto simp: process_team_def)
  then have "process_channels drv now iter tid tn channels s = Some (fst q, Inr s')"
    by (cases q) (simp add: emit_def)
  with step assms(2) show ?thesis by (rule process_channels_invariant)
next
  case False
  with assms(3) have "s' = s"
    by (auto simp: process_team_def split: sum.splits)
  with assms(2) show ?thesis by simp
qed

lemma process_teams_invariant:
  assumes step: "\<And>tid tn channel cid evs members ids s.
      P s \<Longrightarrow> dict_item channel ''id'' = Inr cid \<Longrightarrow>
      get_all_channel_members drv cid = Some (evs, Inr members) \<Longrightarrow>
      member_user_ids members = Inr ids \<Longrightarrow>
      P (add_channel now tid tn cid (channel_name_of channel) (iter ids) s)"
    and "P s" and "process_teams drv now iter teams s = Some (evs, Inr s')"
  shows "P s'"
  using assms(2,3)
proof (induction teams arbitrary: s evs)
  case Nil
  then show ?case by simp
next
  case (Cons t ts)
  from Cons.prems(2) obtain evs1 s1 evs2 where
    t: "process_team drv now iter t s = Some (evs1, Inr s1)" and
    ts: "process_teams drv now iter ts s1 = Some (evs2, Inr s')"
    by (auto elim: obind_Some_Inr)
  from step Cons.prems(1) t have "P s1" by (rule process_team_invariant)
  then show ?case using ts by (rule Cons.IH)
qed

section \<open>The example run\<close>

lemma collect_ex: "collect drv_ex now_ex remdups = Some (collect_trace_ex, Inr collected_ex)"
  by code_simp

lemma main_ex:
  "main drv_ex pg_ok now_ex remdups 100 =
     Some (collect_trace_ex @
           [GetStatuses [''u1'', ''u2'', ''u3''], Sleep, GetUsers [''u1'', ''u2'', ''u3'']] @
           store_trace_ex, Inr ())"
  by code_simp

lemma channel_name_of_policy: "channel_name_of channel = channel_name_policy channel"
  by (simp add: channel_name_of_def channel_name_policy_def py_or_def dict_get_default_def
        split: option.splits list.splits)

section \<open>The collector\<close>

text \<open>
  C3. A team whose channel list cannot be fetched is skipped: the loop over the teams ends
  as it would without that team. A channel whose member listing fails is skipped in the
  same way, and no record of the collected snapshot carries its channel id.
\<close>

theorem failure_isolation:
  "(dict_item team ''id'' = Inr tid \<and> dict_item team ''name'' = Inr tn \<and>
    get_channels_for_user drv tid = Inl e \<longrightarrow>
      map_option snd (process_teams drv now iter (tsa @ team # tsb) s)
        = map_option snd (process_teams drv now iter (tsa @ tsb) s))
   \<and>
   (dict_item channel ''id'' = Inr cid \<and> get_all_channel_members drv cid = Some (evs, Inl e') \<longrightarrow>
      map_option snd (process_channels drv now iter tid' tn' (csa @ channel # csb) s')
        = map_option snd (process_channels drv now iter tid' tn' (csa @ csb) s')
      \<and> (\<forall>evs' st. collect drv now iter = Some (evs', Inr st) \<longrightarrow>
             (\<forall>r \<in> set (snd st). c_channel_id r \<noteq> cid)))"
proof (intro conjI impI allI)
  assume "dict_item team ''id'' = Inr tid \<and> dict_item team ''name'' = Inr tn \<and>
    get_channels_for_user drv tid = Inl e"
  then have "\<And>s. process_team drv now iter team s = Some ([GetChannels tid], Inr s)"
    by (simp add: process_team_fetch_fails)
  then show "map_option snd (process_teams drv now iter (tsa @ team # tsb) s)
        = map_option snd (process_teams drv now iter (tsa @ tsb) s)"
    by (rule skip_team)
next
  assume a: "dict_item channel ''id'' = Inr cid \<and> get_all_channel_members drv cid = Some (evs, Inl e')"
  then have "\<And>s. process_channel drv now iter tid' tn' channel s = Some (evs, Inr s)"
    by (simp add: process_channel_listing_fails)
  then show "map_option snd (process_channels drv now iter tid' tn' (csa @ channel # csb) s')
        = map_option snd (process_channels drv now iter tid' tn' (csa @ csb) s')"
    by (rule skip_channel)
next
  fix evs' st
  assume a: "dict_item channel ''id'' = Inr cid \<and> get_all_channel_members drv cid = Some (evs, Inl e')"
    and c: "collect drv now iter = Some (evs', Inr st)"
  let ?P = "\<lambda>s :: cstate. \<forall>r \<in> set (snd s). c_channel_id r \<noteq> cid"
  from c obtain teams q where q: "process_teams drv now iter teams ([], []) = Some q"
      "emit [Login, GetUserTeams] q = (evs', Inr st)"
    by (auto simp: collect_def split: option.splits sum.splits)
  then have pt: "process_teams drv now iter teams ([], []) = Some (fst q, Inr st)"
    by (cases q) (simp add: emit_def)
  have step: "?P (add_channel now tid tn cid2 (channel_name_of ch) (iter ids) s)"
    if "?P s" "get_all_channel_members drv cid2 = Some (evs2, Inr members)"
    for tid tn ch cid2 evs2 members ids s
  proof -
    from that(2) a have "cid2 \<noteq> cid" by auto
    with that(1) show ?thesis by (auto simp: add_channel_def)
  qed
  have "?P st"
    by (rule process_teams_invariant[where P = ?P, OF _ _ pt]) (use step in auto)
  then show "\<forall>r \<in> set (snd st). c_channel_id r \<noteq> cid" .
qed

theorem failure_isolation_witness:
  "dict_item team_c ''id'' = Inr ''tC'' \<and> dict_item team_c ''name'' = Inr ''gamma'' \<and>
   get_channels_for_user drv_ex ''tC'' = Inl (ApiError ''503'') \<and>
   dict_item chan_x ''id'' = Inr ''cX'' \<and>
   get_all_channel_members drv_ex ''cX'' = Some ([GetMembers ''cX'' 0 200], Inl (ApiError ''403'')) \<and>
   collect drv_ex now_ex remdups = Some (collect_trace_ex, Inr collected_ex) \<and>
   map_option snd (process_teams drv_ex now_ex remdups ([team_a] @ team_c # [team_b]) ([], []))
     = map_option snd (process_teams drv_ex now_ex remdups ([team_a] @ [team_b]) ([], [])) \<and>
   map_option snd (process_channels drv_ex now_ex remdups ''tA'' ''alpha'' ([chan_a] @ chan_x # [chan_e]) ([], []))
     = map_option snd (process_channels drv_ex now_ex remdups ''tA'' ''alpha'' ([chan_a] @ [chan_e]) ([], [])) \<and>
   list_all (\<lambda>r. c_channel_id r \<noteq> ''cX'') (snd collected_ex)"
proof -
  have h1: "dict_item team_c ''id'' = Inr ''tC'' \<and> dict_item team_c ''name'' = Inr ''gamma'' \<and>
   get_channels_for_user drv_ex ''tC'' = Inl (ApiError ''503'')"
    by code_simp
  have h2: "dict_item chan_x ''id'' = Inr ''cX'' \<and>
   get_all_channel_members drv_ex ''cX'' = Some ([GetMembers ''cX'' 0 200], Inl (ApiError ''403''))"
    by code_simp
  note t = failure_isolation [where team = team_c and tid = "''tC''" and tn = "''gamma''"
      and drv = drv_ex and e = "ApiError ''503''" and now = now_ex and iter = remdups
      and tsa = "[team_a]" and tsb = "[team_b]" and s = "([], [])"
      and channel = chan_x and cid = "''cX''" and evs = "[GetMembers ''cX'' 0 200]"
      and e' = "ApiError ''403''" and tid' = "''tA''" and tn' = "''alpha''"
      and csa = "[chan_a]" and csb = "[chan_e]" and s' = "([], [])"]
  from t h1 h2 collect_ex show ?thesis unfolding list_all_iff by blast
qed

text \<open>
  C8, as amended. Every record a channel adds carries as channel name the channel's
  \<open>display_name\<close> when that is present and not empty, otherwise its \<open>name\<close> when
  present, otherwise \<open>unknown\<close>.
\<close>

theorem channel_name_stored:
  assumes "process_channel drv now iter tid tn channel s = Some (evs, Inr s')"
  shows "\<exists>new. snd s' = snd s @ new \<and>
           (\<forall>r \<in> set new. c_channel_name r = channel_name_policy channel)"
  using assms
proof (rule process_channel_cases)
  assume "s' = s"
  then have "snd s' = snd s @ []" by simp
  then show ?thesis by fastforce
next
  fix cid members ids
  assume "s' = add_channel now tid tn cid (channel_name_of channel) (iter ids) s"
  then have "snd s' = snd s @ (if iter ids = [] then []
      else map (\<lambda>u. (now, tid, tn, cid, channel_name_policy channel, u)) (iter ids))"
    by (simp add: add_channel_def channel_name_of_policy)
  moreover have "\<forall>r \<in> set (if iter ids = [] then []
      else map (\<lambda>u. (now, tid, tn, cid, channel_name_policy channel, u)) (iter ids)).
        c_channel_name r = channel_name_policy channel"
    by auto
  ultimately show ?thesis by blast
qed

theorem channel_name_stored_witness:
  "process_channel drv_ex now_ex remdups ''tB'' ''beta'' chan_b ([], [])
     = Some ([GetMembers ''cB'' 0 200, Sleep, GetMembers ''cB'' 1 200],
             Inr ([''u2'', ''u3''],
                  [(now_ex, ''tB'', ''beta'', ''cB'', ''u2__u3'', ''u2''),
                   (now_ex, ''tB'', ''beta'', ''cB'', ''u2__u3'', ''u3'')])) \<and>
   channel_name_policy chan_b = ''u2__u3'' \<and>
   (\<exists>new. [(now_ex, ''tB'', ''beta'', ''cB'', ''u2__u3'', ''u2''),
            (now_ex, ''tB'', ''beta'', ''cB'', ''u2__u3'', ''u3'')] = [] @ new \<and>
          (\<forall>r \<in> set new. c_channel_name r = channel_name_policy chan_b))"
proof -
  have h: "process_channel drv_ex now_ex remdups ''tB'' ''beta'' chan_b ([], [])
     = Some ([GetMembers ''cB'' 0 200, Sleep, GetMembers ''cB'' 1 200],
             Inr ([''u2'', ''u3''],
                  [(now_ex, ''tB'', ''beta'', ''cB'', ''u2__u3'', ''u2''),
                   (now_ex, ''tB'', ''beta'', ''cB'', ''u2__u3'', ''u3'')]))"
    by code_simp
  have p: "channel_name_policy chan_b = ''u2__u3''" by code_simp
  from channel_name_stored [OF h] h p show ?thesis by simp
qed

text \<open>
  C8 as stated fails for a channel whose \<open>display_name\<close> is present and empty: its
  records carry the \<open>name\<close>.
\<close>

theorem display_name_counterexample:
  "dict_get chan_b ''display_name'' = Some [] \<and>
   dict_get chan_b ''name'' = Some ''u2__u3'' \<and>
   map_option (\<lambda>m. map_sum id (\<lambda>s. map c_channel_name (snd s)) (snd m))
     (process_channel drv_ex now_ex remdups ''tB'' ''beta'' chan_b ([], []))
     = Some (Inr [''u2__u3'', ''u2__u3''])"
  by code_simp

lemma count_distinct:
  "distinct xs \<Longrightarrow> length (filter (\<lambda>x. x = u) xs) = (if u \<in> set xs then 1 else 0)"
  by (induction xs) auto

text \<open>
  C9. A channel whose members are listed adds exactly one record for each distinct user
  id of the listing, however often the listing repeats it, each with the channel's id; a
  listing without user ids adds no record and no id.
\<close>

theorem one_record_per_user:
  assumes "set_iter_ok iter" and "dict_item channel ''id'' = Inr cid"
    and "get_all_channel_members drv cid = Some (evs, Inr members)"
    and "member_user_ids members = Inr ids"
  shows "\<exists>new. process_channel drv now iter tid tn channel s
                  = Some (evs, Inr (fst s @ map c_user_id new, snd s @ new)) \<and>
           (\<forall>u. length (filter (\<lambda>r. c_user_id r = u) new) = (if u \<in> set ids then 1 else 0)) \<and>
           (\<forall>r \<in> set new. c_channel_id r = cid) \<and>
           (ids = [] \<longrightarrow> new = [])"
proof -
  let ?mk = "\<lambda>u. (now, tid, tn, cid, channel_name_of channel, u)"
  let ?new = "map ?mk (iter ids)"
  have d: "distinct (iter ids)" and st: "set (iter ids) = set ids"
    using assms(1) by (simp_all add: set_iter_ok_def)
  have ids: "map c_user_id ?new = iter ids" by (simp add: comp_def)
  have "add_channel now tid tn cid (channel_name_of channel) (iter ids) s
          = (fst s @ map c_user_id ?new, snd s @ ?new)"
    unfolding ids by (simp add: add_channel_def)
  then have 1: "process_channel drv now iter tid tn channel s
                  = Some (evs, Inr (fst s @ map c_user_id ?new, snd s @ ?new))"
    using assms(2-4) by (simp add: process_channel_def)
  have "length (filter (\<lambda>r. c_user_id r = u) ?new) = length (filter (\<lambda>x. x = u) (iter ids))" for u
    by (simp add: filter_map comp_def)
  then have 2: "\<forall>u. length (filter (\<lambda>r. c_user_id r = u) ?new) = (if u \<in> set ids then 1 else 0)"
    using count_distinct[OF d] st by simp
  have 3: "\<forall>r \<in> set ?new. c_channel_id r = cid" by auto
  have 4: "ids = [] \<longrightarrow> ?new = []" using st by auto
  from 1 2 3 4 show ?thesis by blast
qed

theorem one_record_per_user_witness:
  "set_iter_ok remdups \<and> dict_item chan_a ''id'' = Inr ''cA'' \<and>
   get_all_channel_members drv_ex ''cA''
     = Some ([GetMembers ''cA'' 0 200, Sleep, GetMembers ''cA'' 1 200],
             Inr [member ''u1'', member ''u2'', member ''u1'']) \<and>
   member_user_ids [member ''u1'', member ''u2'', member ''u1''] = Inr [''u1'', ''u2'', ''u1''] \<and>
   (\<exists>new. process_channel drv_ex now_ex remdups ''tA'' ''alpha'' chan_a ([], [])
             = Some ([GetMembers ''cA'' 0 200, Sleep, GetMembers ''cA'' 1 200],
                     Inr ([] @ map c_user_id new, [] @ new)) \<and>
          (\<forall>u. length (filter (\<lambda>r. c_user_id r = u) new)
                 = (if u \<in> set [''u1'', ''u2'', ''u1''] then 1 else 0)))"
proof -
  have h1: "set_iter_ok remdups" by (simp add: set_iter_ok_def)
  have h2: "dict_item chan_a ''id'' = Inr ''cA''" by code_simp
  have h3: "get_all_channel_members drv_ex ''cA''
     = Some ([GetMembers ''cA'' 0 200, Sleep, GetMembers ''cA'' 1 200],
             Inr [member ''u1'', member ''u2'', member ''u1''])"
    by code_simp
  have h4: "member_user_ids [member ''u1'', member ''u2'', member ''u1'']
              = Inr [''u1'', ''u2'', ''u1'']"
    by code_simp
  from one_record_per_user [OF h1 h2 h3 h4, of now_ex "''tA''" "''alpha''" "([], [])"]
  obtain new where "process_channel drv_ex now_ex remdups ''tA'' ''alpha'' chan_a ([], [])
             = Some ([GetMembers ''cA'' 0 200, Sleep, GetMembers ''cA'' 1 200],
                     Inr ([] @ map c_user_id new, [] @ new))"
     "\<forall>u. length (filter (\<lambda>r. c_user_id r = u) new)
                 = (if u \<in> set [''u1'', ''u2'', ''u1''] then 1 else 0)"
    by auto
  with h1 h2 h3 h4 show ?thesis by blast
qed

section \<open>The rows a run inserts\<close>

lemma inserted_rows_Nil: "inserted_rows [] = []"
  by (simp add: inserted_rows_def)

lemma inserted_rows_append: "inserted_rows (a @ b) = inserted_rows a @ inserted_rows b"
  by (simp add: inserted_rows_def)

lemma inserted_rows_Cons:
  "inserted_rows (e # evs) = (case e of Execute (Insert r) \<Rightarrow> [r] | _ \<Rightarrow> []) @ inserted_rows evs"
  by (simp add: inserted_rows_def)

lemma inserted_rows_emit:
  "inserted_rows (fst (emit a m)) = inserted_rows a @ inserted_rows (fst m)"
  by (simp add: emit_def inserted_rows_append)

lemma members_loop_no_inserts:
  assumes "members_loop fetch c p acc = Some y"
  shows "inserted_rows (fst y) = []"
  using assms
proof (rule members_loop.raw_induct [rotated 1, where P = "\<lambda>_ _ _ _ y. inserted_rows (fst y) = []"])
  fix loop :: "(string \<Rightarrow> nat \<Rightarrow> nat \<Rightarrow> exn + json list) \<Rightarrow> string \<Rightarrow> nat \<Rightarrow> json list
     \<Rightarrow> (json list) io option"
  fix fetch channel_id page all_members y
  assume ih: "\<And>f c p a y. loop f c p a = Some y \<Longrightarrow> inserted_rows (fst y) = []"
  assume eq: "(case fetch channel_id page per_page of
      Inl e \<Rightarrow> Some ([GetMembers channel_id page per_page], Inl e)
      | Inr members \<Rightarrow>
          if members = []
          then Some ([GetMembers channel_id page per_page], Inr all_members)
          else Option.bind (loop fetch channel_id (page + 1) (all_members @ members))
                (\<lambda>r. Some (emit [GetMembers channel_id page per_page, Sleep] r))) = Some y"
  show "inserted_rows (fst y) = []"
  proof (cases "fetch channel_id page per_page")
    case (Inl e)
    with eq show ?thesis by (auto simp: inserted_rows_Cons inserted_rows_Nil)
  next
    case (Inr members)
    show ?thesis
    proof (cases "members = []")
      case True
      with Inr eq show ?thesis by (auto simp: inserted_rows_Cons inserted_rows_Nil)
    next
      case False
      with Inr eq obtain r where
        r: "loop fetch channel_id (page + 1) (all_members @ members) = Some r"
        and y: "y = emit [GetMembers channel_id page per_page, Sleep] r"
        by (auto simp: bind_eq_Some_conv)
      from ih[OF r] show ?thesis
        by (simp add: y inserted_rows_emit inserted_rows_Cons inserted_rows_Nil)
    qed
  qed
qed

lemma process_channel_no_inserts:
  assumes "process_channel drv now iter tid tn channel s = Some (evs, r)"
  shows "inserted_rows evs = []"
proof (cases "dict_item channel ''id''")
  case (Inl e)
  with assms show ?thesis by (auto simp: process_channel_def inserted_rows_Nil)
next
  case (Inr cid)
  with assms obtain r' where "get_all_channel_members drv cid = Some (evs, r')"
    by (auto simp: process_channel_def split: option.splits sum.splits)
  then show ?thesis
    using members_loop_no_inserts by (fastforce simp: get_all_channel_members_def)
qed

lemma obind_no_inserts:
  assumes "obind m k = Some (evs, r)"
    and "\<And>evs r. m = Some (evs, r) \<Longrightarrow> inserted_rows evs = []"
    and "\<And>x evs r. k x = Some (evs, r) \<Longrightarrow> inserted_rows evs = []"
  shows "inserted_rows evs = []"
  using assms(1)
proof (rule obind_Some)
  fix e assume "m = Some (evs, Inl e)"
  then show ?thesis by (rule assms(2))
next
  fix evs1 x evs2
  assume "m = Some (evs1, Inr x)" "k x = Some (evs2, r)" "evs = evs1 @ evs2"
  then show ?thesis using assms(2,3) by (simp add: inserted_rows_append)
qed

lemma map_emit_Some:
  assumes "map_option (emit a) m = Some (evs, r)"
  obtains evs' where "m = Some (evs', r)" "evs = a @ evs'"
  using assms by (cases m) (auto simp: emit_def)

lemma process_channels_no_inserts:
  "process_channels drv now iter tid tn cs s = Some (evs, r) \<Longrightarrow> inserted_rows evs = []"
proof (induction cs arbitrary: s evs r)
  case Nil
  then show ?case by (auto simp: inserted_rows_Nil)
next
  case (Cons c cs)
  from Cons.prems have "obind (process_channel drv now iter tid tn c s)
      (process_channels drv now iter tid tn cs) = Some (evs, r)" by simp
  then show ?case
    by (rule obind_no_inserts) (auto intro: process_channel_no_inserts Cons.IH)
qed

lemma process_team_no_inserts:
  assumes "process_team drv now iter team s = Some (evs, r)"
  shows "inserted_rows evs = []"
proof (cases "\<exists>tid tn channels. dict_item team ''id'' = Inr tid \<and> dict_item team ''name'' = Inr tn
          \<and> get_channels_for_user drv tid = Inr channels")
  case True
  then obtain tid tn channels where t: "dict_item team ''id'' = Inr tid"
    "dict_item team ''name'' = Inr tn" "get_channels_for_user drv tid = Inr channels"
    by blast
  with assms have "map_option (emit [GetChannels tid])
      (process_channels drv now iter tid tn channels s) = Some (evs, r)"
    by (simp add: process_team_def)
  then show ?thesis
    by (rule map_emit_Some)
       (auto simp: inserted_rows_Cons inserted_rows_Nil dest: process_channels_no_inserts)
next
  case False
  with assms show ?thesis
    by (auto simp: process_team_def inserted_rows_Cons inserted_rows_Nil split: sum.splits)
qed

lemma process_teams_no_inserts:
  "process_teams drv now iter teams s = Some (evs, r) \<Longrightarrow> inserted_rows evs = []"
proof (induction teams arbitrary: s evs r)
  case Nil
  then show ?case by (auto simp: inserted_rows_Nil)
next
  case (Cons t ts)
  from Cons.prems have "obind (process_team drv now iter t s)
      (process_teams drv now iter ts) = Some (evs, r)" by simp
  then show ?case
    by (rule obind_no_inserts) (auto intro: process_team_no_inserts Cons.IH)
qed

lemma collect_no_inserts:
  assumes "collect drv now iter = Some (evs, r)"
  shows "inserted_rows evs = []"
proof (cases "\<exists>teams. login drv = None \<and> get_user_teams drv = Inr teams")
  case True
  then obtain teams where "login drv = None" "get_user_teams drv = Inr teams" by blast
  with assms have "map_option (emit [Login, GetUserTeams])
      (process_teams drv now iter teams ([], [])) = Some (evs, r)"
    by (simp add: collect_def)
  then show ?thesis
    by (rule map_emit_Some)
       (auto simp: inserted_rows_Cons inserted_rows_Nil dest: process_teams_no_inserts)
next
  case False
  with assms show ?thesis
    by (auto simp: collect_def inserted_rows_Cons inserted_rows_Nil
          split: option.splits sum.splits)
qed

lemma resolve_no_inserts: "inserted_rows (fst (resolve drv iter ids)) = []"
  by (simp add: resolve_def Let_def inserted_rows_Cons inserted_rows_Nil
        split: sum.splits)

lemma fst_then_io:
  "fst (then_io m k) = (case snd m of Inl e \<Rightarrow> fst m | Inr x \<Rightarrow> fst m @ fst (k x))"
  by (simp add: then_io_def emit_def split: sum.splits)

lemma snd_then_io:
  "snd (then_io m k) = (case snd m of Inl e \<Rightarrow> Inl e | Inr x \<Rightarrow> snd (k x))"
  by (simp add: then_io_def emit_def split: sum.splits)

lemma then_io_no_inserts:
  assumes "inserted_rows (fst m) = []" and "\<And>x. inserted_rows (fst (k x)) = []"
  shows "inserted_rows (fst (then_io m k)) = []"
  using assms by (simp add: fst_then_io inserted_rows_append split: sum.splits)

lemma do_commit_no_inserts: "inserted_rows (fst (do_commit pg)) = []"
  by (simp add: do_commit_def inserted_rows_Cons inserted_rows_Nil split: option.splits)

lemma ensure_table_exists_no_inserts: "inserted_rows (fst (ensure_table_exists pg)) = []"
proof -
  have 1: "inserted_rows (fst (ensure_extension pg)) = []"
    by (simp add: ensure_extension_def inserted_rows_Cons inserted_rows_Nil split: option.splits)
  have 2: "inserted_rows (fst (create_table pg)) = []"
    by (simp add: create_table_def inserted_rows_Cons inserted_rows_Nil split: option.splits)
  have 3: "inserted_rows (fst (convert_hypertable pg)) = []"
    by (simp add: convert_hypertable_def inserted_rows_Cons inserted_rows_Nil split: option.splits)
  have 4: "inserted_rows (fst (set_compression pg)) = []"
    by (simp add: set_compression_def inserted_rows_Cons inserted_rows_Nil split: option.splits)
  have 5: "inserted_rows (fst (add_policy pg)) = []"
    by (simp add: add_policy_def inserted_rows_Cons inserted_rows_Nil split: option.splits)
  show ?thesis
    unfolding ensure_table_exists_def
    by (intro then_io_no_inserts 1 2 3 4 5 do_commit_no_inserts)
qed

text \<open>The loop inserts the enriched records in their order, up to the first failure.\<close>

lemma insert_loop_rows:
  "\<exists>n. inserted_rows (fst (insert_loop pg B un st rs c)) = map (enrich un st) (take n rs)"
proof (induction rs arbitrary: c)
  case Nil
  show ?case by (simp add: inserted_rows_Nil)
next
  case (Cons r rs)
  obtain n where n: "inserted_rows (fst (insert_loop pg B un st rs (c + 1)))
                       = map (enrich un st) (take n rs)"
    using Cons.IH by blast
  have one: "enrich un st r # [] = map (enrich un st) (take (Suc 0) (r # rs))" by simp
  have more: "enrich un st r # map (enrich un st) (take n rs)
                = map (enrich un st) (take (Suc n) (r # rs))" by simp
  show ?case
    by (auto simp: inserted_rows_Cons inserted_rows_Nil inserted_rows_emit n
          split: option.splits intro: exI[of _ "Suc 0"] exI[of _ "Suc n"])
qed

lemma insert_loop_all_rows:
  "snd (insert_loop pg B un st rs c) = Inr c' \<Longrightarrow>
     inserted_rows (fst (insert_loop pg B un st rs c)) = map (enrich un st) rs"
proof (induction rs arbitrary: c)
  case Nil
  show ?case by (simp add: inserted_rows_Nil)
next
  case (Cons r rs)
  from Cons.prems have "snd (insert_loop pg B un st rs (c + 1)) = Inr c'"
    by (auto simp: emit_def split: option.splits if_splits)
  from Cons.IH[OF this] Cons.prems show ?case
    by (auto simp: inserted_rows_Cons inserted_rows_Nil inserted_rows_emit
          split: option.splits if_splits)
qed

lemma final_commit_no_inserts: "inserted_rows (fst (final_commit pg B c)) = []"
  by (simp add: final_commit_def do_commit_no_inserts inserted_rows_Nil)

lemma write_phase_rows:
  "\<exists>n. inserted_rows (fst (write_phase pg B un st rs)) = map (enrich un st) (take n rs)"
  using insert_loop_rows[of pg B un st rs 0]
  by (auto simp: write_phase_def fst_then_io inserted_rows_append final_commit_no_inserts
        split: sum.splits)

lemma write_phase_all_rows:
  assumes "snd (write_phase pg B un st rs) = Inr u"
  shows "inserted_rows (fst (write_phase pg B un st rs)) = map (enrich un st) rs"
proof -
  from assms obtain c' where "snd (insert_loop pg B un st rs 0) = Inr c'"
    by (auto simp: write_phase_def snd_then_io split: sum.splits)
  from insert_loop_all_rows[OF this] this show ?thesis
    by (simp add: write_phase_def fst_then_io inserted_rows_append final_commit_no_inserts)
qed

lemma store_rows:
  "\<exists>n. inserted_rows (fst (store pg B un st rs)) = map (enrich un st) (take n rs)"
proof (cases "connect pg = None \<and> (\<exists>u. snd (ensure_table_exists pg) = Inr u)")
  case True
  then show ?thesis
    using write_phase_rows[of pg B un st rs]
    by (auto simp: store_def Let_def fst_then_io inserted_rows_append inserted_rows_Cons
          inserted_rows_Nil ensure_table_exists_no_inserts)
next
  case False
  have "inserted_rows (fst (store pg B un st rs)) = []"
  proof (cases "connect pg")
    case None
    with False obtain e where "snd (ensure_table_exists pg) = Inl e"
      by (cases "snd (ensure_table_exists pg)") auto
    with None show ?thesis
      by (simp add: store_def Let_def fst_then_io inserted_rows_append inserted_rows_Cons
          inserted_rows_Nil ensure_table_exists_no_inserts)
  next
    case (Some e)
    then show ?thesis by (simp add: store_def inserted_rows_Cons inserted_rows_Nil)
  qed
  then have "inserted_rows (fst (store pg B un st rs)) = map (enrich un st) (take 0 rs)"
    by simp
  then show ?thesis by blast
qed

lemma store_all_rows:
  assumes "snd (store pg B un st rs) = Inr u"
  shows "inserted_rows (fst (store pg B un st rs)) = map (enrich un st) rs"
proof -
  from assms have c: "connect pg = None"
    by (auto simp: store_def split: option.splits)
  with assms have e: "snd (ensure_table_exists pg) = Inr ()"
    and w: "snd (write_phase pg B un st rs) = Inr ()"
    by (auto simp: store_def Let_def snd_then_io split: sum.splits)
  from write_phase_all_rows[OF w] c e show ?thesis
    by (simp add: store_def Let_def fst_then_io inserted_rows_append inserted_rows_Cons
          inserted_rows_Nil ensure_table_exists_no_inserts)
qed

text \<open>A run either ends while collecting, or goes on to resolve and to store.\<close>

lemma main_cases:
  assumes "main drv pg now iter B = Some (evs, r)"
  obtains e where "collect drv now iter = Some (evs, Inl e)" "r = Inl e"
  | evs1 s where "collect drv now iter = Some (evs1, Inr s)"
      "evs = evs1 @ fst (resolve drv iter (fst s)) @
               fst (then_io (store pg B (fst (snd (resolve drv iter (fst s))))
                              (snd (snd (resolve drv iter (fst s)))) (snd s))
                      (\<lambda>_. do_logout drv))"
      "r = snd (then_io (store pg B (fst (snd (resolve drv iter (fst s))))
                              (snd (snd (resolve drv iter (fst s)))) (snd s))
                      (\<lambda>_. do_logout drv))"
proof -
  from assms have "obind (collect drv now iter) (\<lambda>s.
       let res = resolve drv iter (fst s) in
       Some (emit (fst res)
               (then_io (store pg B (fst (snd res)) (snd (snd res)) (snd s))
                  (\<lambda>_. do_logout drv)))) = Some (evs, r)"
    by (simp add: main_def)
  then show ?thesis
  proof (rule obind_Some)
    fix e assume "collect drv now iter = Some (evs, Inl e)" "r = Inl e"
    then show ?thesis by (rule that(1))
  next
    fix evs1 s evs2
    assume c: "collect drv now iter = Some (evs1, Inr s)"
      and k: "(let res = resolve drv iter (fst s) in
       Some (emit (fst res)
               (then_io (store pg B (fst (snd res)) (snd (snd res)) (snd s))
                  (\<lambda>_. do_logout drv)))) = Some (evs2, r)"
      and e: "evs = evs1 @ evs2"
    from k have "evs2 = fst (resolve drv iter (fst s)) @
               fst (then_io (store pg B (fst (snd (resolve drv iter (fst s))))
                              (snd (snd (resolve drv iter (fst s)))) (snd s))
                      (\<lambda>_. do_logout drv))"
      and "r = snd (then_io (store pg B (fst (snd (resolve drv iter (fst s))))
                              (snd (snd (resolve drv iter (fst s)))) (snd s))
                      (\<lambda>_. do_logout drv))"
      by (auto simp: Let_def emit_def)
    with c e show ?thesis by (intro that(2)) auto
  qed
qed

lemma do_logout_no_inserts: "inserted_rows (fst (do_logout drv)) = []"
  by (simp add: do_logout_def inserted_rows_Cons inserted_rows_Nil split: option.splits)

lemma main_rows:
  assumes "main drv pg now iter B = Some (evs, r)"
    and "collect drv now iter = Some (evs1, Inr s)"
  shows "inserted_rows evs
           = inserted_rows (fst (store pg B (fst (snd (resolve drv iter (fst s))))
                              (snd (snd (resolve drv iter (fst s)))) (snd s)))"
  using assms(1)
proof (rule main_cases)
  fix e assume "collect drv now iter = Some (evs, Inl e)"
  with assms(2) show ?thesis by simp
next
  fix evs1' s'
  assume c: "collect drv now iter = Some (evs1', Inr s')"
    and e: "evs = evs1' @ fst (resolve drv iter (fst s')) @
               fst (then_io (store pg B (fst (snd (resolve drv iter (fst s'))))
                              (snd (snd (resolve drv iter (fst s')))) (snd s'))
                      (\<lambda>_. do_logout drv))"
  from c assms(2) have s: "s' = s" "evs1' = evs1" by simp_all
  show ?thesis
    unfolding e s
    by (simp add: inserted_rows_append collect_no_inserts[OF assms(2)] resolve_no_inserts
          fst_then_io do_logout_no_inserts split: sum.splits)
qed

lemma main_ends_normally:
  assumes "main drv pg now iter B = Some (evs, Inr u)"
    and "collect drv now iter = Some (evs1, Inr s)"
  shows "snd (store pg B (fst (snd (resolve drv iter (fst s))))
                (snd (snd (resolve drv iter (fst s)))) (snd s)) = Inr ()"
  using assms(1)
proof (rule main_cases)
  fix e assume "Inr u = Inl e"
  then show ?thesis by simp
next
  fix evs1' s'
  assume c: "collect drv now iter = Some (evs1', Inr s')"
    and r: "Inr u = snd (then_io (store pg B (fst (snd (resolve drv iter (fst s'))))
                              (snd (snd (resolve drv iter (fst s')))) (snd s'))
                      (\<lambda>_. do_logout drv))"
  from c assms(2) have s: "s' = s" by simp
  from r show ?thesis unfolding s
    by (auto simp: snd_then_io split: sum.splits)
qed

lemma collect_invariant:
  assumes step: "\<And>tid tn channel cid evs members ids s.
      P s \<Longrightarrow> dict_item channel ''id'' = Inr cid \<Longrightarrow>
      get_all_channel_members drv cid = Some (evs, Inr members) \<Longrightarrow>
      member_user_ids members = Inr ids \<Longrightarrow>
      P (add_channel now tid tn cid (channel_name_of channel) (iter ids) s)"
    and "P ([], [])" and "collect drv now iter = Some (evs, Inr s)"
  shows "P s"
proof -
  from assms(3) obtain teams q where q: "process_teams drv now iter teams ([], []) = Some q"
      "emit [Login, GetUserTeams] q = (evs, Inr s)"
    by (auto simp: collect_def split: option.splits sum.splits)
  then have "process_teams drv now iter teams ([], []) = Some (fst q, Inr s)"
    by (cases q) (simp add: emit_def)
  with step assms(2) show ?thesis by (rule process_teams_invariant)
qed

lemma collected_timestamps:
  assumes "collect drv now iter = Some (evs, Inr s)"
  shows "\<forall>r \<in> set (snd s). c_timestamp r = now"
  by (rule collect_invariant[where P = "\<lambda>s. \<forall>r \<in> set (snd s). c_timestamp r = now", OF _ _ assms])
     (auto simp: add_channel_def)

lemma r_timestamp_enrich: "r_timestamp (enrich un st r) = c_timestamp r"
  by (cases r) simp

lemma collected_part_enrich: "collected_part (enrich un st r) = r"
  by (cases r) simp

section \<open>The rows of a run\<close>

text \<open>
  C1. Every row a run inserts has as timestamp the instant \<open>now\<close> taken once at the start
  of the run, so all rows of one run share it.
\<close>

theorem single_capture_time:
  assumes "main drv pg now iter B = Some (evs, r)"
  shows "\<forall>row \<in> set (inserted_rows evs). r_timestamp row = now"
  using assms
proof (rule main_cases)
  fix e assume "collect drv now iter = Some (evs, Inl e)"
  then have "inserted_rows evs = []" by (rule collect_no_inserts)
  then show ?thesis by simp
next
  fix evs1 s
  assume c: "collect drv now iter = Some (evs1, Inr s)"
  let ?un = "fst (snd (resolve drv iter (fst s)))" and ?st = "snd (snd (resolve drv iter (fst s)))"
  obtain n where "inserted_rows evs = map (enrich ?un ?st) (take n (snd s))"
    using main_rows[OF assms c] store_rows[of pg B ?un ?st "snd s"] by auto
  moreover have "\<forall>r \<in> set (take n (snd s)). c_timestamp r = now"
    using collected_timestamps[OF c] by (auto dest: in_set_takeD)
  ultimately show ?thesis by (auto simp: r_timestamp_enrich)
qed

theorem single_capture_time_witness:
  "main drv_ex pg_ok now_ex remdups 100 =
     Some (collect_trace_ex @
           [GetStatuses [''u1'', ''u2'', ''u3''], Sleep, GetUsers [''u1'', ''u2'', ''u3'']] @
           store_trace_ex, Inr ()) \<and>
   map r_timestamp (inserted_rows (collect_trace_ex @
           [GetStatuses [''u1'', ''u2'', ''u3''], Sleep, GetUsers [''u1'', ''u2'', ''u3'']] @
           store_trace_ex)) = [now_ex, now_ex, now_ex, now_ex]"
proof -
  have n: "length (inserted_rows (collect_trace_ex @
           [GetStatuses [''u1'', ''u2'', ''u3''], Sleep, GetUsers [''u1'', ''u2'', ''u3'']] @
           store_trace_ex)) = 4"
    by code_simp
  have "map r_timestamp (inserted_rows (collect_trace_ex @
           [GetStatuses [''u1'', ''u2'', ''u3''], Sleep, GetUsers [''u1'', ''u2'', ''u3'']] @
           store_trace_ex)) = replicate 4 now_ex"
    using single_capture_time [OF main_ex] n
    by (intro replicate_eqI) auto
  with main_ex show ?thesis by (simp add: numeral_eq_Suc)
qed

text \<open>
  C10. The rows a run inserts are the collected records, in their order, each with the
  user name and the status looked up for its user id added: timestamp, team id, team name,
  channel id, channel name and user id of a row are those of the collected record. A run
  that ends normally has inserted all of them.
\<close>

theorem enrichment_frame:
  assumes "main drv pg now iter B = Some (evs, r)"
    and "collect drv now iter = Some (evs1, Inr s)"
  shows "inserted_rows evs
           = map (enrich (fst (snd (resolve drv iter (fst s)))) (snd (snd (resolve drv iter (fst s)))))
               (take (length (inserted_rows evs)) (snd s)) \<and>
         map collected_part (inserted_rows evs) = take (length (inserted_rows evs)) (snd s) \<and>
         (r = Inr () \<longrightarrow> map collected_part (inserted_rows evs) = snd s)"
proof -
  let ?un = "fst (snd (resolve drv iter (fst s)))" and ?st = "snd (snd (resolve drv iter (fst s)))"
  obtain n where n: "inserted_rows evs = map (enrich ?un ?st) (take n (snd s))"
    using main_rows[OF assms] store_rows[of pg B ?un ?st "snd s"] by auto
  then have l: "length (inserted_rows evs) = min n (length (snd s))" by simp
  have t: "take n (snd s) = take (min n (length (snd s))) (snd s)"
    by (simp add: min_def)
  have 1: "inserted_rows evs = map (enrich ?un ?st) (take (length (inserted_rows evs)) (snd s))"
    unfolding l using n t by simp
  have 2: "map collected_part (inserted_rows evs) = take (length (inserted_rows evs)) (snd s)"
    by (subst 1) (simp add: comp_def collected_part_enrich)
  have 3: "map collected_part (inserted_rows evs) = snd s" if "r = Inr ()"
  proof -
    from assms(1) that have "main drv pg now iter B = Some (evs, Inr ())" by simp
    from main_ends_normally[OF this assms(2)]
    have "inserted_rows evs = map (enrich ?un ?st) (snd s)"
      using main_rows[OF assms] store_all_rows by simp
    then show ?thesis by (simp add: comp_def collected_part_enrich)
  qed
  from 1 2 3 show ?thesis by blast
qed

theorem enrichment_frame_witness:
  "main drv_ex pg_ok now_ex remdups 100 =
     Some (collect_trace_ex @
           [GetStatuses [''u1'', ''u2'', ''u3''], Sleep, GetUsers [''u1'', ''u2'', ''u3'']] @
           store_trace_ex, Inr ()) \<and>
   collect drv_ex now_ex remdups = Some (collect_trace_ex, Inr collected_ex) \<and>
   map collected_part (inserted_rows (collect_trace_ex @
           [GetStatuses [''u1'', ''u2'', ''u3''], Sleep, GetUsers [''u1'', ''u2'', ''u3'']] @
           store_trace_ex)) = snd collected_ex"
  using enrichment_frame [OF main_ex collect_ex] main_ex collect_ex by blast

section \<open>The resolver\<close>

lemma collected_ids:
  assumes "set_iter_ok iter" and "collect drv now iter = Some (evs, Inr s)"
  shows "set (fst s) = c_user_id ` set (snd s)"
proof (rule collect_invariant[where P = "\<lambda>s. set (fst s) = c_user_id ` set (snd s)", OF _ _ assms(2)])
  show "set (fst ([], [])) = c_user_id ` set (snd ([]::string list, []::collected list))" by simp
next
  fix tid tn channel cid evs members ids and s :: cstate
  assume "set (fst s) = c_user_id ` set (snd s)"
  then show "set (fst (add_channel now tid tn cid (channel_name_of channel) (iter ids) s)) =
       c_user_id ` set (snd (add_channel now tid tn cid (channel_name_of channel) (iter ids) s))"
    by (auto simp: add_channel_def image_Un image_image)
qed

lemma resolve_events:
  "fst (resolve drv iter ids) =
     (if ids = [] then []
      else if isl (get_user_statuses_by_id drv (iter ids)) then [GetStatuses (iter ids)]
      else [GetStatuses (iter ids), Sleep, GetUsers (iter ids)])"
  by (simp add: resolve_def Let_def split: sum.splits)

text \<open>The collector, the store and the logout make no lookup.\<close>

lemma lookups_Nil: "lookups [] = []"
  by (simp add: lookups_def)

lemma lookups_append: "lookups (a @ b) = lookups a @ lookups b"
  by (simp add: lookups_def)

lemma lookups_emit: "lookups (fst (emit a m)) = lookups a @ lookups (fst m)"
  by (simp add: emit_def lookups_def)

lemma members_loop_no_lookups:
  assumes "members_loop fetch c p acc = Some y"
  shows "lookups (fst y) = []"
  using assms
proof (rule members_loop.raw_induct [rotated 1, where P = "\<lambda>_ _ _ _ y. lookups (fst y) = []"])
  fix loop :: "(string \<Rightarrow> nat \<Rightarrow> nat \<Rightarrow> exn + json list) \<Rightarrow> string \<Rightarrow> nat \<Rightarrow> json list
     \<Rightarrow> (json list) io option"
  fix fetch channel_id page all_members y
  assume ih: "\<And>f c p a y. loop f c p a = Some y \<Longrightarrow> lookups (fst y) = []"
  assume eq: "(case fetch channel_id page per_page of
      Inl e \<Rightarrow> Some ([GetMembers channel_id page per_page], Inl e)
      | Inr members \<Rightarrow>
          if members = []
          then Some ([GetMembers channel_id page per_page], Inr all_members)
          else Option.bind (loop fetch channel_id (page + 1) (all_members @ members))
                (\<lambda>r. Some (emit [GetMembers channel_id page per_page, Sleep] r))) = Some y"
  show "lookups (fst y) = []"
  proof (cases "fetch channel_id page per_page")
    case (Inl e)
    with eq show ?thesis by (auto simp: lookups_def)
  next
    case (Inr members)
    show ?thesis
    proof (cases "members = []")
      case True
      with Inr eq show ?thesis by (auto simp: lookups_def)
    next
      case False
      with Inr eq obtain r where
        r: "loop fetch channel_id (page + 1) (all_members @ members) = Some r"
        and y: "y = emit [GetMembers channel_id page per_page, Sleep] r"
        by (auto simp: bind_eq_Some_conv)
      from ih[OF r] show ?thesis
        by (simp add: y lookups_emit) (simp add: lookups_def)
    qed
  qed
qed

lemma process_channel_no_lookups:
  assumes "process_channel drv now iter tid tn channel s = Some (evs, r)"
  shows "lookups evs = []"
proof (cases "dict_item channel ''id''")
  case (Inl e)
  with assms show ?thesis by (auto simp: process_channel_def lookups_Nil)
next
  case (Inr cid)
  with assms obtain r' where "get_all_channel_members drv cid = Some (evs, r')"
    by (auto simp: process_channel_def split: option.splits sum.splits)
  then show ?thesis
    using members_loop_no_lookups by (fastforce simp: get_all_channel_members_def)
qed

lemma obind_no_lookups:
  assumes "obind m k = Some (evs, r)"
    and "\<And>evs r. m = Some (evs, r) \<Longrightarrow> lookups evs = []"
    and "\<And>x evs r. k x = Some (evs, r) \<Longrightarrow> lookups evs = []"
  shows "lookups evs = []"
  using assms(1)
proof (rule obind_Some)
  fix e assume "m = Some (evs, Inl e)"
  then show ?thesis by (rule assms(2))
next
  fix evs1 x evs2
  assume "m = Some (evs1, Inr x)" "k x = Some (evs2, r)" "evs = evs1 @ evs2"
  then show ?thesis using assms(2,3) by (simp add: lookups_append)
qed

lemma process_channels_no_lookups:
  "process_channels drv now iter tid tn cs s = Some (evs, r) \<Longrightarrow> lookups evs = []"
proof (induction cs arbitrary: s evs r)
  case Nil
  then show ?case by (auto simp: lookups_Nil)
next
  case (Cons c cs)
  from Cons.prems have "obind (process_channel drv now iter tid tn c s)
      (process_channels drv now iter tid tn cs) = Some (evs, r)" by simp
  then show ?case
    by (rule obind_no_lookups) (auto intro: process_channel_no_lookups Cons.IH)
qed

lemma process_team_no_lookups:
  assumes "process_team drv now iter team s = Some (evs, r)"
  shows "lookups evs = []"
proof (cases "\<exists>tid tn channels. dict_item team ''id'' = Inr tid \<and> dict_item team ''name'' = Inr tn
          \<and> get_channels_for_user drv tid = Inr channels")
  case True
  then obtain tid tn channels where t: "dict_item team ''id'' = Inr tid"
    "dict_item team ''name'' = Inr tn" "get_channels_for_user drv tid = Inr channels"
    by blast
  with assms have "map_option (emit [GetChannels tid])
      (process_channels drv now iter tid tn channels s) = Some (evs, r)"
    by (simp add: process_team_def)
  then show ?thesis
  proof (rule map_emit_Some)
    fix evs' assume "process_channels drv now iter tid tn channels s = Some (evs', r)"
      "evs = [GetChannels tid] @ evs'"
    then show ?thesis
      using process_channels_no_lookups by (fastforce simp: lookups_def)
  qed
next
  case False
  with assms show ?thesis
    by (auto simp: process_team_def lookups_def split: sum.splits)
qed

lemma process_teams_no_lookups:
  "process_teams drv now iter teams s = Some (evs, r) \<Longrightarrow> lookups evs = []"
proof (induction teams arbitrary: s evs r)
  case Nil
  then show ?case by (auto simp: lookups_Nil)
next
  case (Cons t ts)
  from Cons.prems have "obind (process_team drv now iter t s)
      (process_teams drv now iter ts) = Some (evs, r)" by simp
  then show ?case
    by (rule obind_no_lookups) (auto intro: process_team_no_lookups Cons.IH)
qed

lemma collect_no_lookups:
  assumes "collect drv now iter = Some (evs, r)"
  shows "lookups evs = []"
proof (cases "\<exists>teams. login drv = None \<and> get_user_teams drv = Inr teams")
  case True
  then obtain teams where "login drv = None" "get_user_teams drv = Inr teams" by blast
  with assms have "map_option (emit [Login, GetUserTeams])
      (process_teams drv now iter teams ([], [])) = Some (evs, r)"
    by (simp add: collect_def)
  then show ?thesis
  proof (rule map_emit_Some)
    fix evs' assume "process_teams drv now iter teams ([], []) = Some (evs', r)"
      "evs = [Login, GetUserTeams] @ evs'"
    then show ?thesis
      using process_teams_no_lookups by (fastforce simp: lookups_def)
  qed
next
  case False
  with assms show ?thesis
    by (auto simp: collect_def lookups_def split: option.splits sum.splits)
qed

lemma then_io_no_lookups:
  assumes "lookups (fst m) = []" and "\<And>x. lookups (fst (k x)) = []"
  shows "lookups (fst (then_io m k)) = []"
  using assms by (simp add: fst_then_io lookups_append split: sum.splits)

lemma do_commit_no_lookups: "lookups (fst (do_commit pg)) = []"
  by (simp add: do_commit_def lookups_def split: option.splits)

lemma ensure_table_exists_no_lookups: "lookups (fst (ensure_table_exists pg)) = []"
proof -
  have 1: "lookups (fst (ensure_extension pg)) = []"
    by (simp add: ensure_extension_def lookups_def split: option.splits)
  have 2: "lookups (fst (create_table pg)) = []"
    by (simp add: create_table_def lookups_def split: option.splits)
  have 3: "lookups (fst (convert_hypertable pg)) = []"
    by (simp add: convert_hypertable_def lookups_def split: option.splits)
  have 4: "lookups (fst (set_compression pg)) = []"
    by (simp add: set_compression_def lookups_def split: option.splits)
  have 5: "lookups (fst (add_policy pg)) = []"
    by (simp add: add_policy_def lookups_def split: option.splits)
  show ?thesis
    unfolding ensure_table_exists_def
    by (intro then_io_no_lookups 1 2 3 4 5 do_commit_no_lookups)
qed

lemma insert_loop_no_lookups: "lookups (fst (insert_loop pg B un st rs c)) = []"
proof (induction rs arbitrary: c)
  case Nil
  show ?case by (simp add: lookups_Nil)
next
  case (Cons r rs)
  show ?case
    by (simp add: lookups_emit Cons.IH split: option.splits) (simp add: lookups_def)
qed

lemma write_phase_no_lookups: "lookups (fst (write_phase pg B un st rs)) = []"
  unfolding write_phase_def
  by (rule then_io_no_lookups)
     (simp_all add: insert_loop_no_lookups final_commit_def do_commit_no_lookups lookups_Nil)

lemma store_no_lookups: "lookups (fst (store pg B un st rs)) = []"
proof (cases "connect pg")
  case None
  have "lookups (fst (then_io (ensure_table_exists pg) (\<lambda>_. write_phase pg B un st rs))) = []"
    by (rule then_io_no_lookups)
       (simp_all add: ensure_table_exists_no_lookups write_phase_no_lookups)
  with None show ?thesis
    by (simp add: store_def Let_def lookups_append) (simp add: lookups_def)
next
  case (Some e)
  then show ?thesis by (simp add: store_def lookups_def)
qed

lemma do_logout_no_lookups: "lookups (fst (do_logout drv)) = []"
  by (simp add: do_logout_def lookups_def split: option.splits)

lemma store_logout_no_lookups:
  "lookups (fst (then_io (store pg B un st rs) (\<lambda>_. do_logout drv))) = []"
  by (rule then_io_no_lookups) (simp_all add: store_no_lookups do_logout_no_lookups)

text \<open>
  C7, as amended. After the collection the run asks for the statuses of all collected
  user ids in one call, sleeps, and asks for the users with the same list in one call,
  provided that some user id was collected and the status call does not fail. The list
  holds each collected user id once. When no user id was collected neither call is made;
  when the status call fails the user call is not made. The run makes no other status or
  user lookup, before or after.
\<close>

theorem resolver_lookups:
  assumes "set_iter_ok iter" and "collect drv now iter = Some (evs1, Inr s)"
    and "main drv pg now iter B = Some (evs, r)"
  shows "\<exists>ids evs3. set ids = c_user_id ` set (snd s) \<and> distinct ids \<and>
           evs = evs1 @
                 (if snd s = [] then []
                  else if isl (get_user_statuses_by_id drv ids) then [GetStatuses ids]
                  else [GetStatuses ids, Sleep, GetUsers ids]) @ evs3 \<and>
           lookups evs1 = [] \<and> lookups evs3 = [] \<and>
           lookups evs =
                 (if snd s = [] then []
                  else if isl (get_user_statuses_by_id drv ids) then [GetStatuses ids]
                  else [GetStatuses ids, GetUsers ids])"
  using assms(3)
proof (rule main_cases)
  fix e assume "collect drv now iter = Some (evs, Inl e)"
  with assms(2) show ?thesis by simp
next
  fix evs1' s'
  assume c: "collect drv now iter = Some (evs1', Inr s')"
    and e: "evs = evs1' @ fst (resolve drv iter (fst s')) @
               fst (then_io (store pg B (fst (snd (resolve drv iter (fst s'))))
                              (snd (snd (resolve drv iter (fst s')))) (snd s'))
                      (\<lambda>_. do_logout drv))"
  from c assms(2) have s: "s' = s" "evs1' = evs1" by simp_all
  let ?ids = "iter (fst s)"
  let ?seg = "if snd s = [] then []
              else if isl (get_user_statuses_by_id drv ?ids) then [GetStatuses ?ids]
              else [GetStatuses ?ids, Sleep, GetUsers ?ids]"
  let ?evs3 = "fst (then_io (store pg B (fst (snd (resolve drv iter (fst s))))
                              (snd (snd (resolve drv iter (fst s)))) (snd s))
                      (\<lambda>_. do_logout drv))"
  have ids: "set (fst s) = c_user_id ` set (snd s)"
    using assms(1,2) by (rule collected_ids)
  then have emp: "fst s = [] \<longleftrightarrow> snd s = []"
    by (metis image_is_empty set_empty)
  have 1: "set ?ids = c_user_id ` set (snd s)" and 2: "distinct ?ids"
    using assms(1) ids by (simp_all add: set_iter_ok_def)
  have 3: "evs = evs1 @ ?seg @ ?evs3"
    unfolding e s resolve_events emp ..
  have 4: "lookups evs1 = []"
    using assms(2) by (rule collect_no_lookups)
  have 5: "lookups ?evs3 = []"
    by (rule store_logout_no_lookups)
  have 6: "lookups evs =
                 (if snd s = [] then []
                  else if isl (get_user_statuses_by_id drv ?ids) then [GetStatuses ?ids]
                  else [GetStatuses ?ids, GetUsers ?ids])"
    unfolding 3 lookups_append 4 5 by (simp add: lookups_def)
  from 1 2 3 4 5 6 show ?thesis by blast
qed

theorem resolver_lookups_witness:
  "set_iter_ok remdups \<and>
   collect drv_ex now_ex remdups = Some (collect_trace_ex, Inr collected_ex) \<and>
   main drv_ex pg_ok now_ex remdups 100 =
     Some (collect_trace_ex @
           [GetStatuses [''u1'', ''u2'', ''u3''], Sleep, GetUsers [''u1'', ''u2'', ''u3'']] @
           store_trace_ex, Inr ()) \<and>
   (\<exists>ids. set ids = c_user_id ` set (snd collected_ex) \<and> distinct ids \<and>
      lookups (collect_trace_ex @
           [GetStatuses [''u1'', ''u2'', ''u3''], Sleep, GetUsers [''u1'', ''u2'', ''u3'']] @
           store_trace_ex)
        = (if snd collected_ex = [] then []
           else if isl (get_user_statuses_by_id drv_ex ids) then [GetStatuses ids]
           else [GetStatuses ids, GetUsers ids]))"
proof -
  have h: "set_iter_ok remdups" by (simp add: set_iter_ok_def)
  from resolver_lookups [OF h collect_ex main_ex] h collect_ex main_ex show ?thesis by blast
qed

text \<open>
  C7 as stated fails for a run that collects no user id: the run of an account without
  teams makes no lookup at all.
\<close>

theorem no_lookup_counterexample:
  "main drv_no_teams pg_ok now_ex remdups 100 =
     Some ([Login, GetUserTeams, Connect, Execute CreateExtension, Execute CreateTable,
            Execute CreateHypertable, Execute SetCompression, Execute AddCompressionPolicy,
            Commit, ConnExit, Logout], Inr ()) \<and>
   lookups [Login, GetUserTeams, Connect, Execute CreateExtension, Execute CreateTable,
            Execute CreateHypertable, Execute SetCompression, Execute AddCompressionPolicy,
            Commit, ConnExit, Logout] = []"
  by code_simp

section \<open>A failing resolution\<close>

text \<open>The collector does not ask for statuses or users.\<close>

lemma process_channel_lookups_irrelevant:
  "process_channel (drv\<lparr>get_user_statuses_by_id := f, get_users_by_ids := g\<rparr>) now iter tid tn c s
     = process_channel drv now iter tid tn c s"
  by (simp add: process_channel_def get_all_channel_members_def cong: sum.case_cong option.case_cong)

lemma process_channels_lookups_irrelevant:
  "process_channels (drv\<lparr>get_user_statuses_by_id := f, get_users_by_ids := g\<rparr>) now iter tid tn cs s
     = process_channels drv now iter tid tn cs s"
proof (induction cs arbitrary: s)
  case Nil
  show ?case by simp
next
  case (Cons c cs)
  have "process_channels (drv\<lparr>get_user_statuses_by_id := f, get_users_by_ids := g\<rparr>) now iter tid tn cs
          = process_channels drv now iter tid tn cs"
    by (rule ext) (rule Cons.IH)
  then show ?case by (simp add: process_channel_lookups_irrelevant)
qed

lemma process_team_lookups_irrelevant:
  "process_team (drv\<lparr>get_user_statuses_by_id := f, get_users_by_ids := g\<rparr>) now iter t s
     = process_team drv now iter t s"
  by (simp add: process_team_def process_channels_lookups_irrelevant cong: sum.case_cong option.case_cong)

lemma process_teams_lookups_irrelevant:
  "process_teams (drv\<lparr>get_user_statuses_by_id := f, get_users_by_ids := g\<rparr>) now iter ts s
     = process_teams drv now iter ts s"
proof (induction ts arbitrary: s)
  case Nil
  show ?case by simp
next
  case (Cons t ts)
  have "process_teams (drv\<lparr>get_user_statuses_by_id := f, get_users_by_ids := g\<rparr>) now iter ts
          = process_teams drv now iter ts"
    by (rule ext) (rule Cons.IH)
  then show ?case by (simp add: process_team_lookups_irrelevant)
qed

lemma collect_lookups_irrelevant:
  "collect (drv\<lparr>get_user_statuses_by_id := f, get_users_by_ids := g\<rparr>) now iter
     = collect drv now iter"
  by (simp add: collect_def process_teams_lookups_irrelevant cong: sum.case_cong option.case_cong)

lemma resolve_fails:
  assumes "get_user_statuses_by_id drv (iter ids) = Inl e \<or> get_users_by_ids drv (iter ids) = Inl e"
  shows "snd (resolve drv iter ids) = (Map.empty, Map.empty)"
  using assms by (auto simp: resolve_def Let_def split: sum.splits)

lemma enrich_unknown:
  "r_username (enrich Map.empty Map.empty r) = ''unknown'' \<and>
   r_status (enrich Map.empty Map.empty r) = ''unknown''"
  by (cases r) (simp add: get_or_unknown_def)

text \<open>
  On a connection where no INSERT and no commit fails, how the write loop ends and how
  many rows it inserts does not depend on the looked-up names and statuses.
\<close>

lemma insert_loop_independent:
  assumes "db_ok pg"
  shows "snd (insert_loop pg B un st rs c) = snd (insert_loop pg B un' st' rs c) \<and>
         length (inserted_rows (fst (insert_loop pg B un st rs c)))
           = length (inserted_rows (fst (insert_loop pg B un' st' rs c)))"
proof (induction rs arbitrary: c)
  case Nil
  show ?case by (simp add: inserted_rows_Nil)
next
  case (Cons r rs)
  show ?case
    using Cons.IH[of "c + 1"]
    by (simp add: db_ok_execute[OF assms] db_ok_commit[OF assms] inserted_rows_Cons
          inserted_rows_Nil inserted_rows_emit emit_def)
qed

lemma store_independent:
  assumes "db_ok pg"
  shows "snd (store pg B un st rs) = snd (store pg B un' st' rs) \<and>
         length (inserted_rows (fst (store pg B un st rs)))
           = length (inserted_rows (fst (store pg B un' st' rs)))"
proof -
  from insert_loop_independent[OF assms, of B un st rs 0 un' st']
  have w: "snd (write_phase pg B un st rs) = snd (write_phase pg B un' st' rs)"
     "length (inserted_rows (fst (write_phase pg B un st rs)))
           = length (inserted_rows (fst (write_phase pg B un' st' rs)))"
    by (auto simp: write_phase_def snd_then_io fst_then_io inserted_rows_append
          final_commit_no_inserts split: sum.splits)
  then show ?thesis
    by (auto simp: store_def Let_def snd_then_io fst_then_io inserted_rows_append
          inserted_rows_Cons inserted_rows_Nil split: option.splits sum.splits)
qed

lemma main_after_collect:
  assumes "collect drv now iter = Some (evs1, Inr s)"
  shows "main drv pg now iter B =
     Some (evs1 @ fst (resolve drv iter (fst s)) @
               fst (then_io (store pg B (fst (snd (resolve drv iter (fst s))))
                              (snd (snd (resolve drv iter (fst s)))) (snd s))
                      (\<lambda>_. do_logout drv)),
           snd (then_io (store pg B (fst (snd (resolve drv iter (fst s))))
                              (snd (snd (resolve drv iter (fst s)))) (snd s))
                      (\<lambda>_. do_logout drv)))"
  by (simp add: main_def assms obind_Inr Let_def emit_def)

lemma store_connects: "Connect \<in> set (fst (store pg B un st rs))"
  by (simp add: store_def Let_def split: option.splits)

text \<open>
  C4. When the status lookup or the user lookup of a run raises, both dictionaries are
  empty, the run goes on to the store, and every row it inserts has \<open>unknown\<close> as user
  name and as status. On a connection where no INSERT and no commit fails, the run ends
  as it would with any other answers to the two lookups, with the same number of rows.
\<close>

theorem resolution_failure_degrades:
  assumes "collect drv now iter = Some (evs1, Inr s)"
    and "get_user_statuses_by_id drv (iter (fst s)) = Inl e
         \<or> get_users_by_ids drv (iter (fst s)) = Inl e"
  shows "snd (resolve drv iter (fst s)) = (Map.empty, Map.empty) \<and>
         (\<exists>evs r. main drv pg now iter B = Some (evs, r) \<and> Connect \<in> set evs \<and>
            (\<forall>row \<in> set (inserted_rows evs).
               r_username row = ''unknown'' \<and> r_status row = ''unknown'') \<and>
            (db_ok pg \<longrightarrow>
               (\<forall>f g. \<exists>evs'.
                  main (drv\<lparr>get_user_statuses_by_id := f, get_users_by_ids := g\<rparr>) pg now iter B
                    = Some (evs', r) \<and>
                  length (inserted_rows evs') = length (inserted_rows evs))))"
proof -
  let ?res = "resolve drv iter (fst s)"
  let ?k = "\<lambda>_ :: unit. do_logout drv"
  let ?m = "then_io (store pg B Map.empty Map.empty (snd s)) ?k"
  let ?evs = "evs1 @ fst ?res @ fst ?m"
  have res: "snd ?res = (Map.empty, Map.empty)"
    using assms(2) by (rule resolve_fails)
  then have un: "fst (snd ?res) = Map.empty" and st: "snd (snd ?res) = Map.empty"
    by simp_all
  have m: "main drv pg now iter B = Some (?evs, snd ?m)"
    using main_after_collect[OF assms(1), of pg B] by (simp only: un st)
  have conn: "Connect \<in> set ?evs"
    using store_connects[of pg B Map.empty Map.empty "snd s"]
    by (auto simp: fst_then_io split: sum.splits)
  have rows: "inserted_rows ?evs = inserted_rows (fst (store pg B Map.empty Map.empty (snd s)))"
    using main_rows[OF m assms(1)] by (simp only: un st)
  obtain n where "inserted_rows ?evs = map (enrich Map.empty Map.empty) (take n (snd s))"
    using rows store_rows[of pg B Map.empty Map.empty "snd s"] by auto
  then have unk: "\<forall>row \<in> set (inserted_rows ?evs).
               r_username row = ''unknown'' \<and> r_status row = ''unknown''"
    using enrich_unknown by auto
  have alt: "\<exists>evs'. main (drv\<lparr>get_user_statuses_by_id := f, get_users_by_ids := g\<rparr>) pg now iter B
                    = Some (evs', snd ?m) \<and>
                  length (inserted_rows evs') = length (inserted_rows ?evs)"
    if db: "db_ok pg" for f g
  proof -
    let ?d = "drv\<lparr>get_user_statuses_by_id := f, get_users_by_ids := g\<rparr>"
    let ?un = "fst (snd (resolve ?d iter (fst s)))" and ?st = "snd (snd (resolve ?d iter (fst s)))"
    let ?m' = "then_io (store pg B ?un ?st (snd s)) (\<lambda>_ :: unit. do_logout ?d)"
    have c: "collect ?d now iter = Some (evs1, Inr s)"
      using assms(1) by (simp add: collect_lookups_irrelevant)
    have m': "main ?d pg now iter B = Some (evs1 @ fst (resolve ?d iter (fst s)) @ fst ?m', snd ?m')"
      by (rule main_after_collect[OF c])
    have lo: "do_logout ?d = do_logout drv" by (simp add: do_logout_def)
    from store_independent[OF db, of B ?un ?st "snd s" Map.empty Map.empty]
    have si: "snd (store pg B ?un ?st (snd s)) = snd (store pg B Map.empty Map.empty (snd s))"
      "length (inserted_rows (fst (store pg B ?un ?st (snd s))))
         = length (inserted_rows (fst (store pg B Map.empty Map.empty (snd s))))"
      by simp_all
    have r: "snd ?m' = snd ?m"
      by (simp add: snd_then_io si(1) lo)
    have "length (inserted_rows (evs1 @ fst (resolve ?d iter (fst s)) @ fst ?m'))
            = length (inserted_rows ?evs)"
      using main_rows[OF m' c] si(2) rows by simp
    with m' r show ?thesis by simp
  qed
  from res m conn unk alt show ?thesis by blast
qed

theorem resolution_failure_degrades_witness:
  "collect drv_lookup_fails now_ex remdups = Some (collect_trace_ex, Inr collected_ex) \<and>
   get_users_by_ids drv_lookup_fails (remdups (fst collected_ex)) = Inl (ApiError ''500'') \<and>
   db_ok pg_ok \<and>
   snd (resolve drv_lookup_fails remdups (fst collected_ex)) = (Map.empty, Map.empty) \<and>
   (\<exists>evs. main drv_lookup_fails pg_ok now_ex remdups 100 = Some (evs, Inr ()) \<and>
      Connect \<in> set evs \<and> length (inserted_rows evs) = 4)"
proof -
  have c: "collect drv_lookup_fails now_ex remdups = Some (collect_trace_ex, Inr collected_ex)"
    by code_simp
  have u: "get_users_by_ids drv_lookup_fails (remdups (fst collected_ex)) = Inl (ApiError ''500'')"
    by (simp add: drv_lookup_fails_def)
  then have h: "get_user_statuses_by_id drv_lookup_fails (remdups (fst collected_ex))
                  = Inl (ApiError ''500'')
                \<or> get_users_by_ids drv_lookup_fails (remdups (fst collected_ex))
                  = Inl (ApiError ''500'')"
    by simp
  have d: "db_ok pg_ok" by (simp add: db_ok_def pg_ok_def)
  have same: "drv_lookup_fails\<lparr>get_user_statuses_by_id := get_user_statuses_by_id drv_ex,
                 get_users_by_ids := get_users_by_ids drv_ex\<rparr> = drv_ex"
    by (simp add: drv_lookup_fails_def)
  have four: "length (inserted_rows (collect_trace_ex @
           [GetStatuses [''u1'', ''u2'', ''u3''], Sleep, GetUsers [''u1'', ''u2'', ''u3'']] @
           store_trace_ex)) = 4"
    by code_simp
  from resolution_failure_degrades [OF c h, of pg_ok 100]
  obtain evs r where res: "snd (resolve drv_lookup_fails remdups (fst collected_ex))
                             = (Map.empty, Map.empty)"
    and m: "main drv_lookup_fails pg_ok now_ex remdups 100 = Some (evs, r)"
    and conn: "Connect \<in> set evs"
    and alt: "\<forall>f g. \<exists>evs'.
        main (drv_lookup_fails\<lparr>get_user_statuses_by_id := f, get_users_by_ids := g\<rparr>)
          pg_ok now_ex remdups 100 = Some (evs', r) \<and>
        length (inserted_rows evs') = length (inserted_rows evs)"
    using d by blast
  from alt obtain evs' where
    "main (drv_lookup_fails\<lparr>get_user_statuses_by_id := get_user_statuses_by_id drv_ex,
                 get_users_by_ids := get_users_by_ids drv_ex\<rparr>) pg_ok now_ex remdups 100
       = Some (evs', r)"
    "length (inserted_rows evs') = length (inserted_rows evs)"
    by blast
  then have "r = Inr ()" "length (inserted_rows evs) = 4"
    unfolding same main_ex using four by auto
  with c u d res m conn show ?thesis by blast
qed

section \<open>Provisioning the schema\<close>

lemma hypertable_fatal:
  assumes "execute pg CreateHypertable = Some e" and "\<not> already_hypertable e"
  shows "isl (snd (convert_hypertable pg))"
  using assms by (simp add: convert_hypertable_def split: option.splits)

lemma ensure_fatal:
  assumes "execute pg CreateHypertable = Some e" and "\<not> already_hypertable e"
  shows "isl (snd (ensure_table_exists pg))"
  using hypertable_fatal[OF assms]
  by (auto simp: ensure_table_exists_def snd_then_io split: sum.splits)

lemma ensure_reraises:
  assumes "execute pg CreateHypertable = Some e" and "\<not> already_hypertable e"
    and "execute pg CreateTable = None" and "rollback pg = None"
  shows "snd (ensure_table_exists pg) = Inl (PgError e)"
proof -
  have 1: "snd (ensure_extension pg) = Inr ()"
    by (simp add: ensure_extension_def split: option.splits)
  have 2: "snd (create_table pg) = Inr ()"
    using assms(3) by (simp add: create_table_def)
  have 3: "snd (convert_hypertable pg) = Inl (PgError e)"
    using assms(1,2,4) by (simp add: convert_hypertable_def)
  show ?thesis
    by (simp add: ensure_table_exists_def snd_then_io 1 2 3)
qed

lemma store_aborts:
  assumes "isl (snd (ensure_table_exists pg))"
  shows "isl (snd (store pg B un st rs)) \<and> inserted_rows (fst (store pg B un st rs)) = []"
proof (cases "connect pg")
  case None
  from assms obtain e where e: "snd (ensure_table_exists pg) = Inl e"
    by (cases "snd (ensure_table_exists pg)") auto
  with None show ?thesis
    by (simp add: store_def Let_def snd_then_io fst_then_io inserted_rows_Cons
          inserted_rows_append inserted_rows_Nil ensure_table_exists_no_inserts)
next
  case (Some e)
  then show ?thesis by (simp add: store_def inserted_rows_Cons inserted_rows_Nil)
qed

lemma main_aborts:
  assumes "isl (snd (ensure_table_exists pg))" and "main drv pg now iter B = Some (evs, r)"
  shows "isl r \<and> inserted_rows evs = []"
  using assms(2)
proof (rule main_cases)
  fix e assume "collect drv now iter = Some (evs, Inl e)" "r = Inl e"
  then show ?thesis using collect_no_inserts by auto
next
  fix evs1 and s :: cstate
  let ?un = "fst (snd (resolve drv iter (fst s)))" and ?st = "snd (snd (resolve drv iter (fst s)))"
  assume c: "collect drv now iter = Some (evs1, Inr s)"
    and r: "r = snd (then_io (store pg B ?un ?st (snd s)) (\<lambda>_. do_logout drv))"
  from store_aborts[OF assms(1), of B ?un ?st "snd s"]
  have "isl (snd (store pg B ?un ?st (snd s)))"
    and "inserted_rows (fst (store pg B ?un ?st (snd s))) = []"
    by simp_all
  then show ?thesis
    using main_rows[OF assms(2) c] r by (auto simp: snd_then_io split: sum.splits)
qed

lemma ensure_succeeds:
  assumes "execute pg CreateTable = None" and "hypertable_ok pg"
    and "rollback pg = None" and "commit pg = None"
  shows "snd (ensure_table_exists pg) = Inr ()"
proof -
  have 1: "snd (ensure_extension pg) = Inr ()"
    by (simp add: ensure_extension_def split: option.splits)
  have 2: "snd (create_table pg) = Inr ()"
    using assms(1) by (simp add: create_table_def)
  have 3: "snd (convert_hypertable pg) = Inr ()"
    using assms(2) by (auto simp: convert_hypertable_def hypertable_ok_def split: option.splits)
  have 4: "snd (set_compression pg) = Inr ()"
    using assms(3) by (simp add: set_compression_def split: option.splits)
  have 5: "snd (add_policy pg) = Inr ()"
    using assms(3) by (simp add: add_policy_def split: option.splits)
  have 6: "snd (do_commit pg) = Inr ()"
    using assms(4) by (simp add: do_commit_def)
  show ?thesis
    by (simp add: ensure_table_exists_def snd_then_io 1 2 3 4 5 6)
qed

text \<open>
  What holds of the provisioning. A failure of the hypertable conversion other than
  "already a hypertable" ends \<open>ensure_table_exists\<close> with an exception (the one of the
  conversion, when the table could be created and the roll-back succeeds), and the run
  ends with an exception and without any INSERT. When the table is created, the
  conversion succeeds or reports "already a hypertable", and roll-back and commit
  succeed, provisioning ends normally whatever the extension, compression-setting and
  policy statements answer: a failing compression setting is rolled back, a failing
  policy registration is rolled back unless it reports that the policy exists, and
  "already a hypertable" is not rolled back.
\<close>

lemma provisioning_tiers:
  "(execute pg CreateHypertable = Some e \<and> \<not> already_hypertable e \<longrightarrow>
      isl (snd (ensure_table_exists pg)) \<and>
      (execute pg CreateTable = None \<and> rollback pg = None \<longrightarrow>
         snd (ensure_table_exists pg) = Inl (PgError e)) \<and>
      (\<forall>drv now iter B evs r. main drv pg now iter B = Some (evs, r) \<longrightarrow>
         isl r \<and> inserted_rows evs = []))
   \<and>
   (execute pg' CreateTable = None \<and> hypertable_ok pg' \<and> rollback pg' = None \<and>
    commit pg' = None \<longrightarrow>
      snd (ensure_table_exists pg') = Inr () \<and>
      convert_hypertable pg' = ([Execute CreateHypertable], Inr ()) \<and>
      set_compression pg'
        = (Execute SetCompression #
             (case execute pg' SetCompression of None \<Rightarrow> [] | Some c \<Rightarrow> [Rollback]), Inr ()) \<and>
      add_policy pg'
        = (Execute AddCompressionPolicy #
             (case execute pg' AddCompressionPolicy of
                None \<Rightarrow> []
              | Some c \<Rightarrow> if policy_exists c then [] else [Rollback]), Inr ()))"
proof (intro conjI impI allI)
  assume a: "execute pg CreateHypertable = Some e \<and> \<not> already_hypertable e"
  then show f: "isl (snd (ensure_table_exists pg))" by (simp add: ensure_fatal)
  {
    assume "execute pg CreateTable = None \<and> rollback pg = None"
    with a show "snd (ensure_table_exists pg) = Inl (PgError e)"
      by (simp add: ensure_reraises)
  }
  {
    fix drv now iter B evs r
    assume "main drv pg now iter B = Some (evs, r)"
    from main_aborts[OF f this] show "isl r" and "inserted_rows evs = []" by simp_all
  }
next
  assume b: "execute pg' CreateTable = None \<and> hypertable_ok pg' \<and> rollback pg' = None \<and>
    commit pg' = None"
  then show "snd (ensure_table_exists pg') = Inr ()" by (simp add: ensure_succeeds)
  from b show "convert_hypertable pg' = ([Execute CreateHypertable], Inr ())"
    by (auto simp: convert_hypertable_def hypertable_ok_def split: option.splits)
  from b show "set_compression pg'
        = (Execute SetCompression #
             (case execute pg' SetCompression of None \<Rightarrow> [] | Some c \<Rightarrow> [Rollback]), Inr ())"
    by (simp add: set_compression_def split: option.splits)
  from b show "add_policy pg'
        = (Execute AddCompressionPolicy #
             (case execute pg' AddCompressionPolicy of
                None \<Rightarrow> []
              | Some c \<Rightarrow> if policy_exists c then [] else [Rollback]), Inr ())"
    by (simp add: add_policy_def split: option.splits)
qed

lemma provisioning_tiers_example:
  "execute pg_no_timescale CreateHypertable
     = Some (PgErr (Some ''42883'') ''function create_hypertable(unknown, unknown) does not exist'') \<and>
   \<not> already_hypertable
        (PgErr (Some ''42883'') ''function create_hypertable(unknown, unknown) does not exist'') \<and>
   execute pg_no_timescale CreateTable = None \<and> rollback pg_no_timescale = None \<and>
   execute pg_rerun CreateTable = None \<and> hypertable_ok pg_rerun \<and> rollback pg_rerun = None \<and>
   commit pg_rerun = None \<and>
   snd (ensure_table_exists pg_no_timescale)
     = Inl (PgError (PgErr (Some ''42883'')
         ''function create_hypertable(unknown, unknown) does not exist'')) \<and>
   snd (ensure_table_exists pg_rerun) = Inr () \<and>
   fst (ensure_table_exists pg_rerun)
     = [Execute CreateExtension, Rollback, Execute CreateTable, Execute CreateHypertable,
        Execute SetCompression, Rollback, Execute AddCompressionPolicy, Commit]"
proof -
  have h1: "execute pg_no_timescale CreateHypertable
     = Some (PgErr (Some ''42883'') ''function create_hypertable(unknown, unknown) does not exist'') \<and>
   \<not> already_hypertable
        (PgErr (Some ''42883'') ''function create_hypertable(unknown, unknown) does not exist'')"
    by code_simp
  have h2: "execute pg_no_timescale CreateTable = None \<and> rollback pg_no_timescale = None"
    by code_simp
  have h3: "execute pg_rerun CreateTable = None \<and> hypertable_ok pg_rerun \<and>
            rollback pg_rerun = None \<and> commit pg_rerun = None"
    by code_simp
  have tr: "fst (ensure_table_exists pg_rerun)
     = [Execute CreateExtension, Rollback, Execute CreateTable, Execute CreateHypertable,
        Execute SetCompression, Rollback, Execute AddCompressionPolicy, Commit]"
    by code_simp
  note t = provisioning_tiers [where pg = pg_no_timescale and pg' = pg_rerun
      and e = "PgErr (Some ''42883'') ''function create_hypertable(unknown, unknown) does not exist''"]
  from t h1 h2 h3 tr show ?thesis by blast
qed

text \<open>
  C5, at the input where the code departs from it. The compression settings cannot be
  applied and the roll-back of line 121 raises: the table was created and converted, and
  still \<open>ensure_table_exists\<close> ends with the exception of the roll-back and the run ends
  with it, without any INSERT. The extension step, which calls the same roll-back inside
  a \<open>try\<close> of its own (lines 66 to 69), goes on after the same failure.
\<close>

theorem compression_rollback_unguarded:
  "execute pg_lost CreateTable = None \<and> hypertable_ok pg_lost \<and>
   ensure_table_exists pg_lost
     = ([Execute CreateExtension, Execute CreateTable, Execute CreateHypertable,
         Execute SetCompression, Rollback],
        Inl (PgError (PgErr None ''the connection is lost''))) \<and>
   map_option snd (main drv_ex pg_lost now_ex remdups 100)
     = Some (Inl (PgError (PgErr None ''the connection is lost''))) \<and>
   map_option (\<lambda>m. inserted_rows (fst m)) (main drv_ex pg_lost now_ex remdups 100) = Some [] \<and>
   ensure_extension pg_lost_early = ([Execute CreateExtension, Rollback], Inr ())"
  by code_simp

end
